theory Spec2Isabelle
  imports Main "HOL-Library.Word" "HOL-Library.Sublist" "HOL-Library.Multiset"
begin

section \<open>Webhook delivery: the URL notifier of \<^verbatim>\<open>webhook/url_notifier.go\<close>\<close>

text \<open>
  The development embeds \<^verbatim>\<open>URLNotifier\<close> (\<^verbatim>\<open>QueueNotify\<close>, \<^verbatim>\<open>send\<close>,
  \<^verbatim>\<open>Stop\<close>, \<^verbatim>\<open>NewURLNotifier\<close> and the setters) as functions on an explicit state.
  Go's pointers to events are addresses into a memory of events, the closure handed to the
  queue pool is a record of the variables it captures, and every call that leaves the
  package (clock, logger, hooks, HTTP client) is appended to a trace of observations.
\<close>

subsection \<open>Data model\<close>

type_synonym int32 = "32 word"
type_synonym int64 = "64 word"
type_synonym bytes = "8 word list"
type_synonym error = string

text \<open>Instants are nanoseconds since the zero \<^verbatim>\<open>time.Time{}\<close>; a \<^verbatim>\<open>time.Duration\<close>
  is a number of nanoseconds.\<close>

type_synonym Time = int
type_synonym Duration = int

type_synonym addr = nat
type_synonym ctx_id = nat
type_synonym hook_id = nat
type_synonym logger_id = nat

text \<open>The nested messages of \<^verbatim>\<open>livekit_models\<close> are declared elsewhere; the notifier
  only passes them on.\<close>

typedecl Room
typedecl ParticipantInfo
typedecl EgressInfo
typedecl IngressInfo
typedecl TrackInfo

text \<open>\<^verbatim>\<open>livekit.WebhookEvent\<close> (\<^verbatim>\<open>livekit_webhook.pb.go\<close>, lines 38 to 61), its exported
  fields; a nil pointer is \<open>None\<close>.\<close>

record WebhookEvent =
  Event :: string
  Room :: "Room option"
  Participant :: "ParticipantInfo option"
  EgressInfo :: "EgressInfo option"
  IngressInfo :: "IngressInfo option"
  Track :: "TrackInfo option"
  Id' :: string
  CreatedAt :: int64
  NumDropped :: int32

text \<open>Modelled from the spec: \<^verbatim>\<open>webhookInfo\<close> and \<^verbatim>\<open>livekit.WebhookInfo\<close> are not in
  the sources at hand. The Delivery Outcome of the spec has an enqueue timestamp, a queue
  wait duration, a send start time, a send duration, the target URL, the "was dropped before
  send" flag and an optional error; \<^verbatim>\<open>webhookInfo\<close> receives exactly these, and the event,
  as its eight arguments, and each argument is kept as the field of that position.\<close>

record WebhookInfo =
  whi_event :: WebhookEvent
  whi_queuedAt :: Time
  whi_queueDuration :: Duration
  whi_sentAt :: Time
  whi_sendDuration :: Duration
  whi_url :: string
  whi_dropped :: bool
  whi_sendError :: "error option"

definition webhookInfo ::
  "WebhookEvent \<Rightarrow> Time \<Rightarrow> Duration \<Rightarrow> Time \<Rightarrow> Duration \<Rightarrow> string \<Rightarrow> bool \<Rightarrow> error option
    \<Rightarrow> WebhookInfo" where
  "webhookInfo event queuedAt queueDuration sentAt sendDuration url dropped err =
     \<lparr>whi_event = event, whi_queuedAt = queuedAt, whi_queueDuration = queueDuration,
      whi_sentAt = sentAt, whi_sendDuration = sendDuration, whi_url = url,
      whi_dropped = dropped, whi_sendError = err\<rparr>"

text \<open>The variadic \<^verbatim>\<open>[]interface{}\<close> of the logger: keys and values in turn.\<close>

datatype iface = IString string | IDuration Duration | IInt int

text \<open>Modelled from the spec: \<^verbatim>\<open>auth.AccessToken\<close> is not in the sources at hand. The
  builder calls of \<^verbatim>\<open>send\<close> set the key/secret pair, the validity and the digest the
  credential binds; \<open>None\<close> is the library's default.\<close>

record AccessToken =
  at_apiKey :: string
  at_secret :: string
  at_validFor :: "Duration option"
  at_sha256 :: "string option"

definition NewAccessToken :: "string \<Rightarrow> string \<Rightarrow> AccessToken" where
  "NewAccessToken key secret =
     \<lparr>at_apiKey = key, at_secret = secret, at_validFor = None, at_sha256 = None\<rparr>"

definition SetValidFor :: "Duration \<Rightarrow> AccessToken \<Rightarrow> AccessToken" where
  "SetValidFor d t = t\<lparr>at_validFor := Some d\<rparr>"

definition SetSha256 :: "string \<Rightarrow> AccessToken \<Rightarrow> AccessToken" where
  "SetSha256 s t = t\<lparr>at_sha256 := Some s\<rparr>"

definition Minute :: Duration where
  "Minute = 60 * 1000000000"

text \<open>An HTTP request as \<^verbatim>\<open>send\<close> builds it, and the client's answer.\<close>

record Request =
  req_method :: string
  req_url :: string
  req_body :: bytes
  req_header :: "string \<rightharpoonup> string"

datatype Response = Response int bytes

record Client =
  c_RetryWaitMin :: Duration
  c_RetryWaitMax :: Duration
  c_RetryMax :: int
  c_Timeout :: Duration

text \<open>\<^verbatim>\<open>URLNotifierParams\<close> (lines 40 to 49) with the fields of the two embedded structs
  that the constructor reads. A filter configuration is kept as the set of event types it
  allows, which is all the notifier asks of it.\<close>

type_synonym FilterParams = "string \<Rightarrow> bool"

record URLNotifierParams =
  RetryWaitMin :: Duration
  RetryWaitMax :: Duration
  MaxRetries :: int
  ClientTimeout :: Duration
  Logger :: "logger_id option"
  QueueSize :: int
  URL :: string
  APIKey :: string
  APISecret :: string
  FieldsHook :: "(WebhookInfo \<Rightarrow> WebhookInfo) option"
  FilterParams :: FilterParams

text \<open>The closure that \<^verbatim>\<open>QueueNotify\<close> submits (lines 131 to 163) captures \<^verbatim>\<open>ctx\<close>,
  \<^verbatim>\<open>event\<close> and \<^verbatim>\<open>enqueuedAt\<close>; its local variables live in \<open>locals\<close> while a worker
  runs it.\<close>

record task =
  t_ctx :: ctx_id
  t_event :: addr
  t_enqueuedAt :: Time

record locals =
  l_fields :: "iface list"
  l_queueDuration :: Duration
  l_sendStart :: Time
  l_sendDuration :: Duration
  l_err :: "error option"

type_synonym job = "string \<times> task"

datatype wstate = Idle | AtSend job locals | AtAccount job locals

text \<open>Modelled from the spec: \<^verbatim>\<open>core.QueuePool\<close> is a library outside the sources at
  hand. Section 4.3: a fixed number of worker partitions, the key hashed to select one, a
  bounded FIFO queue per partition; \<^verbatim>\<open>submit\<close> returns false at once when the selected
  queue is at capacity and does not run the task; tasks of one partition run in submission
  order, one at a time; \<^verbatim>\<open>drain\<close> stops accepting and lets queued and in-flight tasks
  finish; \<^verbatim>\<open>kill\<close> discards the queued tasks. The last three fields are the pool's
  history: the jobs it accepted, started and finished, in that order.\<close>

record QueuePool =
  queues :: "nat \<Rightarrow> job list"
  workers :: "nat \<Rightarrow> wstate"
  pool_QueueSize :: int
  closed :: bool
  accepted :: "job list"
  started :: "job list"
  finished :: "job list"

text \<open>What the notifier does to the outside, in the order it does it, and the atomic
  operations on the drop counter.\<close>

datatype obs =
    AtomicSwap int32
  | AtomicInc
  | AtomicAdd int32
  | Infow string "iface list"
  | Warnw string error "iface list"
  | FieldsHookCall WebhookInfo
  | ProcessedHookCall hook_id ctx_id WebhookInfo
  | HttpDo Request "error + Response"
  | BodyClose Response

text \<open>\<^verbatim>\<open>URLNotifier\<close> (lines 53 to 61). The mutex has no field: every locked region lies
  inside one atomic step of the model. The last four fields are the world the notifier runs
  in: the memory that holds the events, the number of clock readings and of HTTP exchanges
  so far, and the trace.\<close>

record URLNotifier =
  params :: URLNotifierParams
  client :: Client
  dropped :: int32
  pool :: QueuePool
  processedHook :: "hook_id option"
  filter' :: FilterParams
  heap :: "addr \<Rightarrow> WebhookEvent"
  ticks :: nat
  calls :: nat
  trace :: "obs list"

text \<open>Everything the two files call and do not define: helpers of the package
  (\<^verbatim>\<open>eventKey\<close>, \<^verbatim>\<open>logFields\<close>, \<^verbatim>\<open>authHeader\<close>), libraries (\<^verbatim>\<open>protojson\<close>,
  \<^verbatim>\<open>sha256\<close>, \<^verbatim>\<open>base64\<close>, \<^verbatim>\<open>auth\<close>, \<^verbatim>\<open>retryablehttp\<close>, the pool's hash) and
  the world: what the clock shows at its k-th reading and how the endpoint answers the k-th
  exchange.\<close>

record env =
  eventKey :: "WebhookEvent \<Rightarrow> string"
  logFields :: "WebhookEvent \<Rightarrow> string \<Rightarrow> iface list"
  Marshal :: "WebhookEvent \<Rightarrow> error + bytes"
  Sum256 :: "bytes \<Rightarrow> bytes"
  EncodeToString :: "bytes \<Rightarrow> string"
  ToJWT :: "AccessToken \<Rightarrow> Time \<Rightarrow> error + string"
  NewRequest_err :: "string \<Rightarrow> string \<Rightarrow> error option"
  authHeader :: string
  CanonicalMIMEHeaderKey :: "string \<Rightarrow> string"
  hash :: "string \<Rightarrow> nat"
  GetLogger :: logger_id
  NewClient :: Client
  clock :: "nat \<Rightarrow> Time"
  net :: "nat \<Rightarrow> Client \<Rightarrow> Request \<Rightarrow> error + Response"

subsection \<open>Clock, logger, atomic counter\<close>

definition time_Now :: "env \<Rightarrow> URLNotifier \<Rightarrow> Time \<times> URLNotifier" where
  "time_Now E n = (clock E (ticks n), n\<lparr>ticks := ticks n + 1\<rparr>)"

text \<open>\<^verbatim>\<open>Time.Sub\<close> saturates at the ends of the \<^verbatim>\<open>int64\<close> range.\<close>

definition time_Sub :: "Time \<Rightarrow> Time \<Rightarrow> Duration" where
  "time_Sub t u = max (- (2 ^ 63)) (min (2 ^ 63 - 1) (t - u))"

definition time_Since :: "env \<Rightarrow> Time \<Rightarrow> URLNotifier \<Rightarrow> Duration \<times> URLNotifier" where
  "time_Since E t n = (case time_Now E n of (now, n1) \<Rightarrow> (time_Sub now t, n1))"

definition emit :: "obs \<Rightarrow> URLNotifier \<Rightarrow> URLNotifier" where
  "emit x n = n\<lparr>trace := trace n @ [x]\<rparr>"

definition dropped_Swap :: "int32 \<Rightarrow> URLNotifier \<Rightarrow> int32 \<times> URLNotifier" where
  "dropped_Swap v n = (dropped n, emit (AtomicSwap (dropped n)) (n\<lparr>dropped := v\<rparr>))"

definition dropped_Inc :: "URLNotifier \<Rightarrow> URLNotifier" where
  "dropped_Inc n = emit AtomicInc (n\<lparr>dropped := dropped n + 1\<rparr>)"

definition dropped_Add :: "int32 \<Rightarrow> URLNotifier \<Rightarrow> URLNotifier" where
  "dropped_Add d n = emit (AtomicAdd d) (n\<lparr>dropped := dropped n + d\<rparr>)"

subsection \<open>The queue pool\<close>

text \<open>The two constants of lines 35 to 38.\<close>

definition numWorkers :: nat where
  "numWorkers = 10"

definition defaultQueueSize :: int where
  "defaultQueueSize = 100"

text \<open>Modelled from the spec: the operations of \<^verbatim>\<open>core.QueuePool\<close>, a library outside
  the sources at hand, as section 4.3 states them. A new pool has empty queues and idle
  workers; the key is hashed to one of the \<open>numWorkers\<close> partitions; \<^verbatim>\<open>Submit\<close> answers false
  and changes nothing when the pool no longer accepts or the queue of the partition is at
  capacity, and appends the job to that queue otherwise; \<^verbatim>\<open>Drain\<close> stops accepting;
  \<^verbatim>\<open>Kill\<close> stops accepting and discards what is queued. The pool is created with
  \<^verbatim>\<open>DropWhenFull\<close> set, the only mode modelled.\<close>

definition NewQueuePool :: "int \<Rightarrow> QueuePool" where
  "NewQueuePool qs =
     \<lparr>queues = (\<lambda>_. []), workers = (\<lambda>_. Idle), pool_QueueSize = qs, closed = False,
      accepted = [], started = [], finished = []\<rparr>"

definition partition_of :: "env \<Rightarrow> string \<Rightarrow> nat" where
  "partition_of E key = hash E key mod numWorkers"

definition pool_Submit :: "env \<Rightarrow> string \<Rightarrow> task \<Rightarrow> QueuePool \<Rightarrow> bool \<times> QueuePool" where
  "pool_Submit E key t p =
     (let i = partition_of E key in
      if closed p \<or> pool_QueueSize p \<le> int (length (queues p i)) then (False, p)
      else (True, p\<lparr>queues := (queues p)(i := queues p i @ [(key, t)]),
                     accepted := accepted p @ [(key, t)]\<rparr>))"

definition pool_Drain :: "QueuePool \<Rightarrow> QueuePool" where
  "pool_Drain p = p\<lparr>closed := True\<rparr>"

definition pool_Kill :: "QueuePool \<Rightarrow> QueuePool" where
  "pool_Kill p = p\<lparr>closed := True, queues := (\<lambda>_. [])\<rparr>"

subsection \<open>The notifier\<close>

text \<open>Modelled from the spec: the filter of \<^verbatim>\<open>webhook/filter.go\<close> is not in the sources at
  hand. Section 4.1: a predicate over event-type names, replaced as a whole by
  \<^verbatim>\<open>SetFilter\<close>; it is kept as that predicate.\<close>

definition newFilter :: "FilterParams \<Rightarrow> FilterParams" where
  "newFilter fp = fp"

definition IsAllowed :: "FilterParams \<Rightarrow> string \<Rightarrow> bool" where
  "IsAllowed f event = f event"

text \<open>\<^verbatim>\<open>NewURLNotifier\<close> (lines 63 to 96); \<open>mem\<close> is the memory the program's events
  live in. The logger adapter of the HTTP client (line 89) has no effect on what follows and
  is left out.\<close>

definition NewURLNotifier :: "env \<Rightarrow> URLNotifierParams \<Rightarrow> (addr \<Rightarrow> WebhookEvent) \<Rightarrow> URLNotifier" where
  "NewURLNotifier E ps mem =
     (let ps1 = (if QueueSize ps = 0 then ps\<lparr>QueueSize := defaultQueueSize\<rparr> else ps);
          ps2 = (if Logger ps1 = None then ps1\<lparr>Logger := Some (GetLogger E)\<rparr> else ps1);
          rhc = NewClient E;
          rhc1 = (if 0 < RetryWaitMin ps2 then rhc\<lparr>c_RetryWaitMin := RetryWaitMin ps2\<rparr> else rhc);
          rhc2 = (if 0 < RetryWaitMax ps2 then rhc1\<lparr>c_RetryWaitMax := RetryWaitMax ps2\<rparr> else rhc1);
          rhc3 = (if 0 < MaxRetries ps2 then rhc2\<lparr>c_RetryMax := MaxRetries ps2\<rparr> else rhc2);
          rhc4 = (if 0 < ClientTimeout ps2 then rhc3\<lparr>c_Timeout := ClientTimeout ps2\<rparr> else rhc3)
      in \<lparr>params = ps2, client = rhc4, dropped = 0, pool = NewQueuePool (QueueSize ps2),
          processedHook = None, filter' = newFilter (FilterParams ps2),
          heap = mem, ticks = 0, calls = 0, trace = []\<rparr>)"

definition SetKeys :: "string \<Rightarrow> string \<Rightarrow> URLNotifier \<Rightarrow> URLNotifier" where
  "SetKeys apiKey apiSecret n = n\<lparr>params := (params n)\<lparr>APIKey := apiKey, APISecret := apiSecret\<rparr>\<rparr>"

definition SetFilter :: "FilterParams \<Rightarrow> URLNotifier \<Rightarrow> URLNotifier" where
  "SetFilter fp n = n\<lparr>filter' := fp\<rparr>"

definition RegisterProcessedHook :: "hook_id option \<Rightarrow> URLNotifier \<Rightarrow> URLNotifier" where
  "RegisterProcessedHook h n = n\<lparr>processedHook := h\<rparr>"

definition getProcessedHook :: "URLNotifier \<Rightarrow> hook_id option" where
  "getProcessedHook n = processedHook n"

text \<open>Lines 147 to 162 and 169 to 184: the outcome goes to the processed hook, if one is
  registered, after the fields hook, if one is configured, has been applied to it.\<close>

definition report :: "ctx_id \<Rightarrow> WebhookInfo \<Rightarrow> URLNotifier \<Rightarrow> URLNotifier" where
  "report ctx whi n =
     (case getProcessedHook n of
        None \<Rightarrow> n
      | Some ph \<Rightarrow>
          (case FieldsHook (params n) of
             None \<Rightarrow> emit (ProcessedHookCall ph ctx whi) n
           | Some fh \<Rightarrow> emit (ProcessedHookCall ph ctx (fh whi)) (emit (FieldsHookCall whi) n)))"

text \<open>\<^verbatim>\<open>send\<close>, line 199: the counter is swapped to zero and the value read goes into
  the event.\<close>

definition send_setDropped :: "addr \<Rightarrow> URLNotifier \<Rightarrow> URLNotifier" where
  "send_setDropped event n =
     (case dropped_Swap 0 n of
        (old, n1) \<Rightarrow> n1\<lparr>heap := (heap n1)(event := (heap n1 event)\<lparr>NumDropped := old\<rparr>)\<rparr>)"

definition NewRequest :: "env \<Rightarrow> string \<Rightarrow> string \<Rightarrow> bytes \<Rightarrow> error + Request" where
  "NewRequest E m u b =
     (case NewRequest_err E m u of
        Some err \<Rightarrow> Inl err
      | None \<Rightarrow> Inr \<lparr>req_method = m, req_url = u, req_body = b, req_header = Map.empty\<rparr>)"

definition Header_Set :: "env \<Rightarrow> string \<Rightarrow> string \<Rightarrow> Request \<Rightarrow> Request" where
  "Header_Set E k v r = r\<lparr>req_header := (req_header r)(CanonicalMIMEHeaderKey E k \<mapsto> v)\<rparr>"

definition client_Do :: "env \<Rightarrow> Request \<Rightarrow> URLNotifier \<Rightarrow> (error + Response) \<times> URLNotifier" where
  "client_Do E r n =
     (let res = net E (calls n) (client n) r
      in (res, emit (HttpDo r res) (n\<lparr>calls := calls n + 1\<rparr>)))"

text \<open>Lines 205 to 215: the credential for an encoded payload.\<close>

definition credential :: "env \<Rightarrow> bytes \<Rightarrow> string \<Rightarrow> string \<Rightarrow> AccessToken" where
  "credential E encoded apiKey apiSecret =
     (let sum = Sum256 E encoded;
          b64 = EncodeToString E sum
      in SetSha256 b64 (SetValidFor (5 * Minute) (NewAccessToken apiKey apiSecret)))"

text \<open>\<^verbatim>\<open>send\<close>, lines 200 to 233.\<close>

definition send_deliver :: "env \<Rightarrow> addr \<Rightarrow> URLNotifier \<Rightarrow> error option \<times> URLNotifier" where
  "send_deliver E event n =
     (case Marshal E (heap n event) of
        Inl err \<Rightarrow> (Some err, n)
      | Inr encoded \<Rightarrow>
          (let at = credential E encoded (APIKey (params n)) (APISecret (params n))
           in case time_Now E n of
                (now, n1) \<Rightarrow>
                  (case ToJWT E at now of
                     Inl err \<Rightarrow> (Some err, n1)
                   | Inr token \<Rightarrow>
                       (case NewRequest E ''POST'' (URL (params n1)) encoded of
                          Inl err \<Rightarrow> (Some err, n1)
                        | Inr r \<Rightarrow>
                            (let r1 = Header_Set E (authHeader E) token r;
                                 r2 = Header_Set E ''content-type'' ''application/webhook+json'' r1
                             in case client_Do E r2 n1 of
                                  (Inl err, n2) \<Rightarrow> (Some err, n2)
                                | (Inr res, n2) \<Rightarrow> (None, emit (BodyClose res) n2))))))"

definition send :: "env \<Rightarrow> addr \<Rightarrow> URLNotifier \<Rightarrow> error option \<times> URLNotifier" where
  "send E event n = send_deliver E event (send_setDropped event n)"

text \<open>The submitted closure in three steps, each atomic with respect to the counter: up to
  the swap (lines 132 to 137 and 199), the delivery (lines 200 to 233, 139 and 140), and the
  accounting with the hooks (lines 141 to 162).\<close>

definition job_begin :: "env \<Rightarrow> task \<Rightarrow> URLNotifier \<Rightarrow> locals \<times> URLNotifier" where
  "job_begin E t n =
     (let fields = logFields E (heap n (t_event t)) (URL (params n))
      in case time_Since E (t_enqueuedAt t) n of
           (queueDuration, n1) \<Rightarrow>
             (let fields1 = fields @ [IString ''queueDuration'', IDuration queueDuration]
              in case time_Now E n1 of
                   (sendStart, n2) \<Rightarrow>
                     (\<lparr>l_fields = fields1, l_queueDuration = queueDuration,
                       l_sendStart = sendStart, l_sendDuration = 0, l_err = None\<rparr>,
                      send_setDropped (t_event t) n2)))"

definition job_io :: "env \<Rightarrow> task \<Rightarrow> locals \<Rightarrow> URLNotifier \<Rightarrow> locals \<times> URLNotifier" where
  "job_io E t l n =
     (case send_deliver E (t_event t) n of
        (err, n1) \<Rightarrow>
          (case time_Since E (l_sendStart l) n1 of
             (sendDuration, n2) \<Rightarrow>
               (l\<lparr>l_fields := l_fields l @ [IString ''sendDuration'', IDuration sendDuration],
                  l_sendDuration := sendDuration, l_err := err\<rparr>, n2)))"

definition job_account :: "env \<Rightarrow> task \<Rightarrow> locals \<Rightarrow> URLNotifier \<Rightarrow> URLNotifier" where
  "job_account E t l n =
     (let n1 = (case l_err l of
                  Some err \<Rightarrow>
                    dropped_Add (NumDropped (heap n (t_event t)) + 1)
                      (emit (Warnw ''failed to send webhook'' err (l_fields l)) n)
                | None \<Rightarrow> emit (Infow ''sent webhook'' (l_fields l)) n)
      in report (t_ctx t)
           (webhookInfo (heap n1 (t_event t)) (t_enqueuedAt t) (l_queueDuration l)
              (l_sendStart l) (l_sendDuration l) (URL (params n1)) False (l_err l))
           n1)"

definition job_run :: "env \<Rightarrow> task \<Rightarrow> URLNotifier \<Rightarrow> URLNotifier" where
  "job_run E t n =
     (case job_begin E t n of
        (l, n1) \<Rightarrow> (case job_io E t l n1 of (l1, n2) \<Rightarrow> job_account E t l1 n2))"

text \<open>\<^verbatim>\<open>QueueNotify\<close>, lines 123 to 187.\<close>

definition QueueNotify :: "env \<Rightarrow> ctx_id \<Rightarrow> addr \<Rightarrow> URLNotifier \<Rightarrow> error option \<times> URLNotifier" where
  "QueueNotify E ctx event n =
     (if \<not> IsAllowed (filter' n) (Event (heap n event)) then (None, n)
      else
        (case time_Now E n of
           (enqueuedAt, n1) \<Rightarrow>
             (let key = eventKey E (heap n1 event)
              in case pool_Submit E key
                        \<lparr>t_ctx = ctx, t_event = event, t_enqueuedAt = enqueuedAt\<rparr> (pool n1) of
                   (True, p) \<Rightarrow> (None, n1\<lparr>pool := p\<rparr>)
                 | (False, p) \<Rightarrow>
                     (let n2 = dropped_Inc (n1\<lparr>pool := p\<rparr>);
                          fields = logFields E (heap n2 event) (URL (params n2));
                          n3 = emit (Infow ''dropped webhook'' fields) n2
                      in (None,
                          report ctx
                            (webhookInfo (heap n3 event) 0 0 0 0 (URL (params n3)) True None)
                            n3)))))"

text \<open>\<^verbatim>\<open>Stop\<close>, lines 189 to 195.\<close>

definition Stop :: "bool \<Rightarrow> URLNotifier \<Rightarrow> URLNotifier" where
  "Stop force n = (if force then n\<lparr>pool := pool_Kill (pool n)\<rparr> else n\<lparr>pool := pool_Drain (pool n)\<rparr>)"

subsection \<open>Producers and workers, interleaved\<close>

text \<open>Modelled from the spec: the workers of \<^verbatim>\<open>core.QueuePool\<close>. Worker \<open>i\<close> takes the
  job at the head of its queue, runs it, and only then takes the next one.\<close>

definition pool_take :: "nat \<Rightarrow> QueuePool \<Rightarrow> QueuePool" where
  "pool_take i p =
     (case queues p i of
        [] \<Rightarrow> p
      | j # q \<Rightarrow> p\<lparr>queues := (queues p)(i := q), started := started p @ [j]\<rparr>)"

definition pool_set :: "nat \<Rightarrow> wstate \<Rightarrow> QueuePool \<Rightarrow> QueuePool" where
  "pool_set i w p = p\<lparr>workers := (workers p)(i := w)\<rparr>"

definition pool_done :: "nat \<Rightarrow> job \<Rightarrow> QueuePool \<Rightarrow> QueuePool" where
  "pool_done i j p = p\<lparr>workers := (workers p)(i := Idle), finished := finished p @ [j]\<rparr>"

text \<open>One atomic step of the running system: a producer's call of \<^verbatim>\<open>QueueNotify\<close>, one of
  the three steps of the job a worker runs, a call of \<^verbatim>\<open>Stop\<close>, or a call of a setter.
  Every step holds at most one operation on the drop counter and at most one on the pool, so
  the interleavings of whole steps are those of these operations. A worker step for a worker
  that is not at that point of its job, or for a number that is no worker, does nothing.\<close>

datatype action =
    Notify ctx_id addr
  | Start nat
  | Deliver nat
  | Account nat
  | StopCall bool
  | KeysCall string string
  | FilterCall FilterParams
  | HookCall "hook_id option"

fun step :: "env \<Rightarrow> action \<Rightarrow> URLNotifier \<Rightarrow> URLNotifier" where
  "step E (Notify ctx event) n = snd (QueueNotify E ctx event n)"
| "step E (Start i) n =
     (if i < numWorkers then
        (case workers (pool n) i of
           Idle \<Rightarrow>
             (case queues (pool n) i of
                [] \<Rightarrow> n
              | j # q \<Rightarrow>
                  (case job_begin E (snd j) (n\<lparr>pool := pool_take i (pool n)\<rparr>) of
                     (l, n1) \<Rightarrow> n1\<lparr>pool := pool_set i (AtSend j l) (pool n1)\<rparr>))
         | AtSend j l \<Rightarrow> n
         | AtAccount j l \<Rightarrow> n)
      else n)"
| "step E (Deliver i) n =
     (if i < numWorkers then
        (case workers (pool n) i of
           Idle \<Rightarrow> n
         | AtSend j l \<Rightarrow>
             (case job_io E (snd j) l n of
                (l1, n1) \<Rightarrow> n1\<lparr>pool := pool_set i (AtAccount j l1) (pool n1)\<rparr>)
         | AtAccount j l \<Rightarrow> n)
      else n)"
| "step E (Account i) n =
     (if i < numWorkers then
        (case workers (pool n) i of
           Idle \<Rightarrow> n
         | AtSend j l \<Rightarrow> n
         | AtAccount j l \<Rightarrow>
             (let n1 = job_account E (snd j) l n in n1\<lparr>pool := pool_done i j (pool n1)\<rparr>))
      else n)"
| "step E (StopCall force) n = Stop force n"
| "step E (KeysCall apiKey apiSecret) n = SetKeys apiKey apiSecret n"
| "step E (FilterCall fp) n = SetFilter fp n"
| "step E (HookCall h) n = RegisterProcessedHook h n"

fun run :: "env \<Rightarrow> action list \<Rightarrow> URLNotifier \<Rightarrow> URLNotifier" where
  "run E [] n = n"
| "run E (a # as) n = run E as (step E a n)"

definition all_idle :: "QueuePool \<Rightarrow> bool" where
  "all_idle p = list_all (\<lambda>i. workers p i = Idle) [0..<numWorkers]"

definition pool_quiet :: "QueuePool \<Rightarrow> bool" where
  "pool_quiet p = list_all (\<lambda>i. workers p i = Idle \<and> queues p i = []) [0..<numWorkers]"

fun current :: "wstate \<Rightarrow> job list" where
  "current Idle = []"
| "current (AtSend j l) = [j]"
| "current (AtAccount j l) = [j]"

definition inflight :: "QueuePool \<Rightarrow> job list" where
  "inflight p = concat (map (\<lambda>i. current (workers p i)) [0..<numWorkers])"

definition queued :: "QueuePool \<Rightarrow> job list" where
  "queued p = concat (map (queues p) [0..<numWorkers])"

definition by_key :: "string \<Rightarrow> job list \<Rightarrow> job list" where
  "by_key k js = filter (\<lambda>j. fst j = k) js"

text \<open>Sends are single-threaded in a schedule when a worker starts a job only while every
  worker is idle.\<close>

fun single_sender :: "env \<Rightarrow> action list \<Rightarrow> URLNotifier \<Rightarrow> bool" where
  "single_sender E [] n = True"
| "single_sender E (a # as) n =
     ((case a of Start i \<Rightarrow> all_idle (pool n) | _ \<Rightarrow> True) \<and> single_sender E as (step E a n))"

text \<open>The spec's count, read off a trace given latest observation first: the drops recorded
  (a rejected enqueue increments the counter, a failed send adds to it) since the counter
  read of the last successful send, or since the beginning when there is none.
  \<open>drops_within\<close> counts back from the end of a successful send to its read of the
  counter.\<close>

fun drops_within :: "obs list \<Rightarrow> nat" where
  "drops_within [] = 0"
| "drops_within (AtomicSwap v # r) = 0"
| "drops_within (AtomicInc # r) = Suc (drops_within r)"
| "drops_within (AtomicAdd d # r) = Suc (drops_within r)"
| "drops_within (x # r) = drops_within r"

fun drops_since :: "obs list \<Rightarrow> nat" where
  "drops_since [] = 0"
| "drops_since (AtomicInc # r) = Suc (drops_since r)"
| "drops_since (AtomicAdd d # r) = Suc (drops_since r)"
| "drops_since (Infow m f # r) = (if m = ''sent webhook'' then drops_within r else drops_since r)"
| "drops_since (x # r) = drops_since r"

fun is_swap :: "obs \<Rightarrow> bool" where
  "is_swap (AtomicSwap v) = True"
| "is_swap x = False"

text \<open>The outcomes handed to the processed hook, the requests handed to the HTTP client, and
  what one call added to the trace.\<close>

fun hook_arg :: "obs \<Rightarrow> WebhookInfo list" where
  "hook_arg (ProcessedHookCall h c w) = [w]"
| "hook_arg x = []"

definition hook_args :: "obs list \<Rightarrow> WebhookInfo list" where
  "hook_args tr = concat (map hook_arg tr)"

fun exchange :: "obs \<Rightarrow> Request list" where
  "exchange (HttpDo r res) = [r]"
| "exchange x = []"

definition exchanges :: "obs list \<Rightarrow> Request list" where
  "exchanges tr = concat (map exchange tr)"

definition added :: "URLNotifier \<Rightarrow> URLNotifier \<Rightarrow> obs list" where
  "added n n' = drop (length (trace n)) (trace n')"

subsection \<open>Moves of the pool and invariants of a run\<close>

text \<open>What a step other than a forced stop can do to the pool: nothing, accept a job, or move
  one worker on.\<close>

inductive pmove :: "env \<Rightarrow> QueuePool \<Rightarrow> QueuePool \<Rightarrow> bool" for E :: env where
  pm_same: "pmove E p p"
| pm_accept:
    "\<not> closed p \<Longrightarrow>
     pmove E p (p\<lparr>queues := (queues p)(partition_of E k := queues p (partition_of E k) @ [(k, t)]),
                   accepted := accepted p @ [(k, t)]\<rparr>)"
| pm_start:
    "i < numWorkers \<Longrightarrow> workers p i = Idle \<Longrightarrow> queues p i = j # q \<Longrightarrow>
     pmove E p (pool_set i (AtSend j l) (pool_take i p))"
| pm_deliver:
    "i < numWorkers \<Longrightarrow> workers p i = AtSend j l \<Longrightarrow>
     pmove E p (pool_set i (AtAccount j l') p)"
| pm_account:
    "i < numWorkers \<Longrightarrow> workers p i = AtAccount j l \<Longrightarrow> pmove E p (pool_done i j p)"
| pm_drain: "pmove E p (pool_Drain p)"

text \<open>The jobs of a list that belong to partition \<open>i\<close>, and the invariant behind the order of
  delivery: in every partition the started jobs are the finished ones followed by the current
  one, and the started jobs followed by the queued ones are the accepted ones (a prefix of
  them once the pool is closed).\<close>

definition on_part :: "env \<Rightarrow> nat \<Rightarrow> job list \<Rightarrow> job list" where
  "on_part E i js = filter (\<lambda>j. partition_of E (fst j) = i) js"

definition fifo_inv :: "env \<Rightarrow> QueuePool \<Rightarrow> bool" where
  "fifo_inv E p =
     (\<forall>i<numWorkers.
        (\<forall>j \<in> set (queues p i) \<union> set (current (workers p i)). partition_of E (fst j) = i)
        \<and> on_part E i (started p) = on_part E i (finished p) @ current (workers p i)
        \<and> prefix (on_part E i (started p) @ queues p i) (on_part E i (accepted p))
        \<and> (\<not> closed p \<longrightarrow> on_part E i (started p) @ queues p i = on_part E i (accepted p)))"

text \<open>The jobs a pool still owes or has finished.\<close>

definition load :: "QueuePool \<Rightarrow> job multiset" where
  "load p = mset (finished p) + mset (queued p) + mset (inflight p)"

text \<open>Observations that do not bear on the count of drops; traces made of increments and
  such observations, and the number of increments in them.\<close>

fun neutral :: "obs \<Rightarrow> bool" where
  "neutral (AtomicSwap v) = False"
| "neutral AtomicInc = False"
| "neutral (AtomicAdd d) = False"
| "neutral (Infow m f) = (m \<noteq> ''sent webhook'')"
| "neutral x = True"

definition incs_only :: "obs list \<Rightarrow> bool" where
  "incs_only tr = list_all (\<lambda>x. x = AtomicInc \<or> neutral x) tr"

definition inc_count :: "obs list \<Rightarrow> nat" where
  "inc_count tr = length (filter (\<lambda>x. x = AtomicInc) tr)"

text \<open>On a trace given latest observation first: every read of the counter returned the
  number of drops recorded since the read of the last successful send before it.\<close>

fun reads_exact :: "obs list \<Rightarrow> bool" where
  "reads_exact [] = True"
| "reads_exact (AtomicSwap v # r) = (v = of_nat (drops_since r) \<and> reads_exact r)"
| "reads_exact (x # r) = reads_exact r"

text \<open>The invariant of a run with single-threaded sends: either every worker is idle and the
  counter holds the drops since the read of the last successful send, or exactly one worker
  has a job in hand, the event of that job holds what the job read, and the counter holds the
  increments since that read.\<close>

definition acct_inv :: "URLNotifier \<Rightarrow> bool" where
  "acct_inv n =
     (reads_exact (rev (trace n)) \<and>
      ((all_idle (pool n) \<and> dropped n = of_nat (drops_since (rev (trace n)))) \<or>
       (\<exists>i j A M.
          i < numWorkers \<and> current (workers (pool n) i) = [j]
          \<and> (\<forall>k<numWorkers. k \<noteq> i \<longrightarrow> workers (pool n) k = Idle)
          \<and> trace n = A @ AtomicSwap (NumDropped (heap n (t_event (snd j)))) # M
          \<and> incs_only M \<and> dropped n = of_nat (inc_count M))))"

text \<open>A schedule that lets the workers finish what the pool holds: worker after worker, the
  job in hand first, then one full job per queued job.\<close>

fun finish_steps :: "nat \<Rightarrow> wstate \<Rightarrow> action list" where
  "finish_steps i Idle = []"
| "finish_steps i (AtSend j l) = [Deliver i, Account i]"
| "finish_steps i (AtAccount j l) = [Account i]"

definition worker_schedule :: "nat \<Rightarrow> QueuePool \<Rightarrow> action list" where
  "worker_schedule i p =
     finish_steps i (workers p i)
     @ concat (replicate (length (queues p i)) [Start i, Deliver i, Account i])"

definition drain_schedule :: "QueuePool \<Rightarrow> action list" where
  "drain_schedule p = concat (map (\<lambda>i. worker_schedule i p) [0..<numWorkers])"

text \<open>The state of a pool after a forced stop: closed, with empty queues.\<close>

definition killed :: "QueuePool \<Rightarrow> bool" where
  "killed p = (closed p \<and> (\<forall>i<numWorkers. queues p i = []))"

subsection \<open>Names for what the claims speak of\<close>

text \<open>The event as \<^verbatim>\<open>send\<close> serializes it, and the outcome that the rejected branch of
  \<^verbatim>\<open>QueueNotify\<close> builds (lines 170 to 179).\<close>

definition event_sent :: "addr \<Rightarrow> URLNotifier \<Rightarrow> WebhookEvent" where
  "event_sent event n = (heap n event)\<lparr>NumDropped := dropped n\<rparr>"

definition dropped_info :: "addr \<Rightarrow> URLNotifier \<Rightarrow> WebhookInfo" where
  "dropped_info event n = webhookInfo (heap n event) 0 0 0 0 (URL (params n)) True None"

text \<open>The spec's four ways for a send to fail (section 7 and section 4.5), each read off the
  state in which \<^verbatim>\<open>send\<close> is called: the payload cannot be encoded, the token cannot be
  constructed, the request cannot be built, the client gives up.\<close>

definition serialization_fails :: "env \<Rightarrow> addr \<Rightarrow> URLNotifier \<Rightarrow> bool" where
  "serialization_fails E event n = isl (Marshal E (event_sent event n))"

definition signing_fails :: "env \<Rightarrow> addr \<Rightarrow> URLNotifier \<Rightarrow> bool" where
  "signing_fails E event n =
     (case Marshal E (event_sent event n) of
        Inl err \<Rightarrow> False
      | Inr encoded \<Rightarrow>
          isl (ToJWT E (credential E encoded (APIKey (params n)) (APISecret (params n)))
                 (clock E (ticks n))))"

definition request_fails :: "env \<Rightarrow> addr \<Rightarrow> URLNotifier \<Rightarrow> bool" where
  "request_fails E event n =
     (case Marshal E (event_sent event n) of
        Inl err \<Rightarrow> False
      | Inr encoded \<Rightarrow> isl (NewRequest E ''POST'' (URL (params n)) encoded))"

definition transport_fails :: "env \<Rightarrow> addr \<Rightarrow> URLNotifier \<Rightarrow> bool" where
  "transport_fails E event n =
     (case Marshal E (event_sent event n) of
        Inl err \<Rightarrow> False
      | Inr encoded \<Rightarrow>
          (case ToJWT E (credential E encoded (APIKey (params n)) (APISecret (params n)))
                  (clock E (ticks n)) of
             Inl err \<Rightarrow> False
           | Inr token \<Rightarrow>
               (case NewRequest E ''POST'' (URL (params n)) encoded of
                  Inl err \<Rightarrow> False
                | Inr r \<Rightarrow>
                    isl (net E (calls n) (client n)
                           (Header_Set E ''content-type'' ''application/webhook+json''
                              (Header_Set E (authHeader E) token r))))))"

subsection \<open>A concrete environment and notifier\<close>

text \<open>The key of an event is read off its \<open>Id'\<close>, which stands for the room name here, and
  the pool hashes a key to its length. The endpoint answers every second exchange.\<close>

definition ex_env :: env where
  "ex_env =
     \<lparr>eventKey = (\<lambda>e. Id' e),
      logFields = (\<lambda>e url. [IString ''event'', IString (Event e), IString ''url'', IString url]),
      Marshal = (\<lambda>e. if Event e = [] then Inl ''marshal: no event type''
                       else Inr (map (\<lambda>c. of_nat (of_char c)) (Event e) @ [ucast (NumDropped e)])),
      Sum256 = (\<lambda>b. [of_nat (length b)]),
      EncodeToString = map (\<lambda>w. char_of (unat w)),
      ToJWT = (\<lambda>a now. if at_apiKey a = [] \<or> at_secret a = [] then Inl ''keys missing''
                          else Inr (at_apiKey a @ ''.'' @ (case at_sha256 a of None \<Rightarrow> [] | Some d \<Rightarrow> d))),
      NewRequest_err = (\<lambda>m u. if u = [] then Some ''empty url'' else None),
      authHeader = ''Authorization'',
      CanonicalMIMEHeaderKey = (\<lambda>k. k),
      hash = length,
      GetLogger = 0,
      NewClient = \<lparr>c_RetryWaitMin = 1000000000, c_RetryWaitMax = 30000000000,
                   c_RetryMax = 4, c_Timeout = 0\<rparr>,
      clock = (\<lambda>k. 1000 * int k),
      net = (\<lambda>k c r. if even k then Inr (Response 200 [])
                       else Inl ''giving up after 5 attempt(s)'')\<rparr>"

definition ex_event :: "string \<Rightarrow> string \<Rightarrow> WebhookEvent" where
  "ex_event ty room =
     \<lparr>Event = ty, Room = None, Participant = None, EgressInfo = None, IngressInfo = None,
      Track = None, Id' = room, CreatedAt = 0, NumDropped = 0\<rparr>"

definition ex_params :: URLNotifierParams where
  "ex_params =
     \<lparr>RetryWaitMin = 0, RetryWaitMax = 0, MaxRetries = 0, ClientTimeout = 0, Logger = None,
      QueueSize = 1, URL = ''http://hook'', APIKey = ''key'', APISecret = ''secret'',
      FieldsHook = None, FilterParams = (\<lambda>ty. ty \<noteq> ''track_published'')\<rparr>"

definition ex_mem :: "addr \<Rightarrow> WebhookEvent" where
  "ex_mem a = (if a = 0 then ex_event ''track_published'' ''a''
               else if a = 1 then ex_event ''room_started'' ''a''
               else if a = 2 then ex_event ''room_finished'' ''a''
               else if a = 3 then ex_event ''room_started'' ''bb''
               else ex_event [] ''a'')"

definition ex_notifier :: URLNotifier where
  "ex_notifier = NewURLNotifier ex_env ex_params ex_mem"

text \<open>Scenario B: queue size 1 and one event of room \<open>a\<close> already queued; a processed hook
  is registered. In \<open>ex_tamper\<close> a fields hook is configured as well, one that clears the
  "was dropped" flag of the outcome it is given.\<close>

definition ex_full :: URLNotifier where
  "ex_full = snd (QueueNotify ex_env 7 1 (RegisterProcessedHook (Some 1) ex_notifier))"

definition ex_tamper :: URLNotifier where
  "ex_tamper =
     snd (QueueNotify ex_env 7 1
            (RegisterProcessedHook (Some 1)
               (NewURLNotifier ex_env
                  (ex_params\<lparr>FieldsHook := Some (\<lambda>w. w\<lparr>whi_dropped := False\<rparr>)\<rparr>) ex_mem)))"

text \<open>Scenario E in small: two events queued, in two partitions.\<close>

definition ex_queued :: URLNotifier where
  "ex_queued = run ex_env [Notify 7 1, Notify 7 3] ex_notifier"

section \<open>Properties\<close>

subsection \<open>How each operation changes the state\<close>

lemma emit_fields [simp]:
  "trace (emit x n) = trace n @ [x]" "dropped (emit x n) = dropped n" "heap (emit x n) = heap n"
  "pool (emit x n) = pool n" "params (emit x n) = params n" "client (emit x n) = client n"
  "processedHook (emit x n) = processedHook n" "filter' (emit x n) = filter' n"
  "ticks (emit x n) = ticks n" "calls (emit x n) = calls n"
  by (simp_all add: emit_def)

lemma report_fields [simp]:
  "dropped (report ctx w n) = dropped n" "heap (report ctx w n) = heap n"
  "pool (report ctx w n) = pool n" "params (report ctx w n) = params n"
  "client (report ctx w n) = client n" "processedHook (report ctx w n) = processedHook n"
  "filter' (report ctx w n) = filter' n" "ticks (report ctx w n) = ticks n"
  "calls (report ctx w n) = calls n"
  by (simp_all add: report_def getProcessedHook_def split: option.splits)

lemma report_trace:
  "trace (report ctx w n) = trace n @
     (case processedHook n of
        None \<Rightarrow> []
      | Some ph \<Rightarrow>
          (case FieldsHook (params n) of
             None \<Rightarrow> [ProcessedHookCall ph ctx w]
           | Some fh \<Rightarrow> [FieldsHookCall w, ProcessedHookCall ph ctx (fh w)]))"
  by (simp add: report_def getProcessedHook_def split: option.splits)

lemma send_setDropped_fields [simp]:
  "trace (send_setDropped event n) = trace n @ [AtomicSwap (dropped n)]"
  "dropped (send_setDropped event n) = 0"
  "heap (send_setDropped event n) = (heap n)(event := event_sent event n)"
  "pool (send_setDropped event n) = pool n" "params (send_setDropped event n) = params n"
  "client (send_setDropped event n) = client n"
  "processedHook (send_setDropped event n) = processedHook n"
  "filter' (send_setDropped event n) = filter' n"
  "ticks (send_setDropped event n) = ticks n" "calls (send_setDropped event n) = calls n"
  by (simp_all add: send_setDropped_def dropped_Swap_def event_sent_def)

lemma send_deliver_fields [simp]:
  "dropped (snd (send_deliver E event n)) = dropped n"
  "heap (snd (send_deliver E event n)) = heap n"
  "pool (snd (send_deliver E event n)) = pool n"
  "params (snd (send_deliver E event n)) = params n"
  "client (snd (send_deliver E event n)) = client n"
  "processedHook (snd (send_deliver E event n)) = processedHook n"
  "filter' (snd (send_deliver E event n)) = filter' n"
  by (simp_all add: send_deliver_def time_Now_def client_Do_def Let_def
      split: sum.splits prod.splits)

subsection \<open>The synchronous part of \<^verbatim>\<open>QueueNotify\<close>\<close>

text \<open>Claim C2. For an event whose type the filter does not allow, \<^verbatim>\<open>QueueNotify\<close>
  returns nil and leaves the whole state as it was: the pool (nothing is enqueued), the drop
  counter, the clock readings, the memory of events and the trace (no log line, no HTTP
  exchange, no call of the fields hook or of the processed hook).\<close>

theorem QueueNotify_filtered:
  "\<not> IsAllowed (filter' n) (Event (heap n event)) \<Longrightarrow> QueueNotify E ctx event n = (None, n)"
  by (simp add: QueueNotify_def)

lemma ex_notifier_simps:
  "filter' ex_notifier = (\<lambda>ty. ty \<noteq> ''track_published'')"
  "heap ex_notifier = ex_mem" "dropped ex_notifier = 0" "trace ex_notifier = []"
  "pool ex_notifier = NewQueuePool 1" "ticks ex_notifier = 0" "calls ex_notifier = 0"
  "processedHook ex_notifier = None"
  "params ex_notifier = ex_params\<lparr>Logger := Some 0\<rparr>"
  "client ex_notifier = NewClient ex_env"
  by (simp_all add: ex_notifier_def NewURLNotifier_def ex_params_def newFilter_def Let_def ex_env_def)

theorem QueueNotify_filtered_witness:
  "\<not> IsAllowed (filter' ex_notifier) (Event (heap ex_notifier 0))
   \<and> QueueNotify ex_env 7 0 ex_notifier = (None, ex_notifier)"
  using QueueNotify_filtered [of ex_notifier 0 ex_env 7]
  by (simp add: ex_notifier_simps IsAllowed_def ex_mem_def ex_event_def)

text \<open>Claim C3. \<^verbatim>\<open>QueueNotify\<close> returns nil for every event in every state, whether the
  event is filtered out, accepted by the pool or rejected by it.\<close>

theorem QueueNotify_returns_nil: "fst (QueueNotify E ctx event n) = None"
  by (simp add: QueueNotify_def Let_def split: prod.splits bool.splits)

text \<open>The state after a rejected submission: one clock reading, the counter incremented, the
  "dropped webhook" log line, then the report to the hooks.\<close>

lemma QueueNotify_rejected_state:
  assumes "IsAllowed (filter' n) (Event (heap n event))"
    and "\<not> fst (pool_Submit E (eventKey E (heap n event))
                  \<lparr>t_ctx = ctx, t_event = event, t_enqueuedAt = clock E (ticks n)\<rparr> (pool n))"
  shows "snd (QueueNotify E ctx event n) =
           report ctx (dropped_info event n)
             (emit (Infow ''dropped webhook'' (logFields E (heap n event) (URL (params n))))
                (dropped_Inc (n\<lparr>ticks := ticks n + 1\<rparr>)))"
  using assms
  by (auto simp add: QueueNotify_def time_Now_def Let_def pool_Submit_def dropped_Inc_def
      dropped_info_def split: prod.splits bool.splits if_splits)

text \<open>Claim C4, as amended. When the pool rejects the submission of an allowed event, the
  drop counter goes up by exactly 1 (in \<^verbatim>\<open>int32\<close> arithmetic), the pool is unchanged, and
  before \<^verbatim>\<open>QueueNotify\<close> returns the processed hook, if one is registered, is called exactly
  once: with the outcome built with "was dropped" true, zero timings and no error when no
  fields hook is configured, and with what the fields hook makes of that outcome when one
  is.\<close>

theorem QueueNotify_rejected:
  assumes "IsAllowed (filter' n) (Event (heap n event))"
    and "\<not> fst (pool_Submit E (eventKey E (heap n event))
                  \<lparr>t_ctx = ctx, t_event = event, t_enqueuedAt = clock E (ticks n)\<rparr> (pool n))"
  shows "dropped (snd (QueueNotify E ctx event n)) = dropped n + 1
    \<and> pool (snd (QueueNotify E ctx event n)) = pool n
    \<and> hook_args (added n (snd (QueueNotify E ctx event n))) =
        (case processedHook n of
           None \<Rightarrow> []
         | Some ph \<Rightarrow>
             [case FieldsHook (params n) of
                None \<Rightarrow> dropped_info event n
              | Some fh \<Rightarrow> fh (dropped_info event n)])
    \<and> whi_dropped (dropped_info event n)
    \<and> whi_queuedAt (dropped_info event n) = 0
    \<and> whi_queueDuration (dropped_info event n) = 0
    \<and> whi_sentAt (dropped_info event n) = 0
    \<and> whi_sendDuration (dropped_info event n) = 0
    \<and> whi_sendError (dropped_info event n) = None"
  unfolding QueueNotify_rejected_state [OF assms]
  by (simp add: report_trace added_def dropped_Inc_def hook_args_def dropped_info_def
      webhookInfo_def split: option.splits)


lemmas ex_eval =
  ex_full_def ex_tamper_def ex_notifier_def ex_params_def ex_mem_def ex_event_def ex_env_def
  NewURLNotifier_def NewQueuePool_def newFilter_def RegisterProcessedHook_def
  QueueNotify_def IsAllowed_def time_Now_def pool_Submit_def partition_of_def numWorkers_def
  dropped_Inc_def emit_def report_def getProcessedHook_def webhookInfo_def dropped_info_def
  added_def hook_args_def Let_def

theorem QueueNotify_rejected_witness:
  "IsAllowed (filter' ex_full) (Event (heap ex_full 2))
   \<and> \<not> fst (pool_Submit ex_env (eventKey ex_env (heap ex_full 2))
               \<lparr>t_ctx = 8, t_event = 2, t_enqueuedAt = clock ex_env (ticks ex_full)\<rparr> (pool ex_full))
   \<and> dropped (snd (QueueNotify ex_env 8 2 ex_full)) = 1
   \<and> map whi_dropped (hook_args (added ex_full (snd (QueueNotify ex_env 8 2 ex_full)))) = [True]"
  using QueueNotify_rejected [of ex_full 2 ex_env 8]
  by (simp add: ex_eval)

text \<open>Claim C4 as stated fails where a fields hook is configured: the hook is applied to the
  outcome before the processed hook sees it (lines 180 to 183), and in \<open>ex_tamper\<close> it clears
  the flag.\<close>

theorem QueueNotify_rejected_tampered:
  "IsAllowed (filter' ex_tamper) (Event (heap ex_tamper 2))
   \<and> \<not> fst (pool_Submit ex_env (eventKey ex_env (heap ex_tamper 2))
               \<lparr>t_ctx = 8, t_event = 2, t_enqueuedAt = clock ex_env (ticks ex_tamper)\<rparr> (pool ex_tamper))
   \<and> processedHook ex_tamper = Some 1
   \<and> map whi_dropped (hook_args (added ex_tamper (snd (QueueNotify ex_env 8 2 ex_tamper)))) = [False]"
  by (simp add: ex_eval)

subsection \<open>The worker's job\<close>

lemma job_io_err: "l_err (fst (job_io E t l n)) = fst (send_deliver E (t_event t) n)"
  by (simp add: job_io_def time_Since_def time_Now_def split: prod.splits)

lemma job_account_dropped:
  "dropped (job_account E t l n) =
     (case l_err l of None \<Rightarrow> dropped n
      | Some err \<Rightarrow> dropped n + (NumDropped (heap n (t_event t)) + 1))"
  by (simp add: job_account_def dropped_Add_def Let_def split: option.splits)

text \<open>Claim C5. The accounting step of the job adds \<open>NumDropped + 1\<close> of the event to the
  counter when the send returned an error and leaves the counter alone when it returned nil;
  the error the job holds is the one \<^verbatim>\<open>send\<close> returned. For a job that runs without
  interruption the counter ends at the previous value plus one after a failure and at zero
  after a success.\<close>

theorem post_send_accounting:
  "dropped (job_account E t l n) =
     (if l_err l = None then dropped n else dropped n + (NumDropped (heap n (t_event t)) + 1))
   \<and> l_err (fst (job_io E t l n)) = fst (send_deliver E (t_event t) n)
   \<and> dropped (job_run E t n) =
       (if fst (send E (t_event t) (n\<lparr>ticks := ticks n + 2\<rparr>)) = None then 0 else dropped n + 1)"
  apply (intro conjI)
    apply (simp add: job_account_dropped split: option.splits)
   apply (rule job_io_err)
  apply (simp add: job_run_def job_begin_def job_io_def time_Since_def time_Now_def Let_def send_def
      job_account_dropped event_sent_def split_beta numeral_2_eq_2
      split: option.splits)
  done


subsection \<open>\<^verbatim>\<open>send\<close>\<close>

lemma send_err:
  "fst (send E event n) =
     (case Marshal E (event_sent event n) of
        Inl err \<Rightarrow> Some err
      | Inr encoded \<Rightarrow>
          (case ToJWT E (credential E encoded (APIKey (params n)) (APISecret (params n)))
                  (clock E (ticks n)) of
             Inl err \<Rightarrow> Some err
           | Inr token \<Rightarrow>
               (case NewRequest E ''POST'' (URL (params n)) encoded of
                  Inl err \<Rightarrow> Some err
                | Inr r \<Rightarrow>
                    (case net E (calls n) (client n)
                           (Header_Set E ''content-type'' ''application/webhook+json''
                              (Header_Set E (authHeader E) token r)) of
                       Inl err \<Rightarrow> Some err
                     | Inr res \<Rightarrow> None))))"
  by (simp add: send_def send_deliver_def time_Now_def client_Do_def Let_def
      split: sum.splits prod.splits)

lemma send_trace:
  "added n (snd (send E event n)) =
     AtomicSwap (dropped n) #
     (case Marshal E (event_sent event n) of
        Inl err \<Rightarrow> []
      | Inr encoded \<Rightarrow>
          (case ToJWT E (credential E encoded (APIKey (params n)) (APISecret (params n)))
                  (clock E (ticks n)) of
             Inl err \<Rightarrow> []
           | Inr token \<Rightarrow>
               (case NewRequest E ''POST'' (URL (params n)) encoded of
                  Inl err \<Rightarrow> []
                | Inr r \<Rightarrow>
                    (let r2 = Header_Set E ''content-type'' ''application/webhook+json''
                                (Header_Set E (authHeader E) token r)
                     in case net E (calls n) (client n) r2 of
                       Inl err \<Rightarrow> [HttpDo r2 (Inl err)]
                     | Inr res \<Rightarrow> [HttpDo r2 (Inr res), BodyClose res]))))"
  by (simp add: send_def send_deliver_def time_Now_def client_Do_def Let_def added_def
      split: sum.splits prod.splits)

text \<open>Claim C6. \<^verbatim>\<open>send\<close> returns an error exactly when the payload cannot be encoded, the
  token cannot be constructed, the request cannot be built or the client gives up; when it
  returns nil it has swapped the counter, made one HTTP exchange and closed the body of the
  response.\<close>

theorem send_error_iff:
  "(fst (send E event n) \<noteq> None) =
     (serialization_fails E event n \<or> signing_fails E event n \<or> request_fails E event n
      \<or> transport_fails E event n)
   \<and> (fst (send E event n) = None \<longrightarrow>
        (\<exists>r res. added n (snd (send E event n)) =
                   [AtomicSwap (dropped n), HttpDo r (Inr res), BodyClose res]))"
  by (auto simp add: send_err send_trace serialization_fails_def signing_fails_def
      request_fails_def transport_fails_def Let_def split: sum.splits)

lemmas send_eval =
  send_def send_deliver_def send_setDropped_def dropped_Swap_def client_Do_def credential_def
  NewRequest_def Header_Set_def NewAccessToken_def SetValidFor_def SetSha256_def Minute_def
  event_sent_def serialization_fails_def signing_fails_def request_fails_def transport_fails_def

theorem send_error_iff_witness:
  "fst (send ex_env 1 ex_notifier) = None
   \<and> \<not> serialization_fails ex_env 1 ex_notifier \<and> \<not> signing_fails ex_env 1 ex_notifier
   \<and> \<not> request_fails ex_env 1 ex_notifier \<and> \<not> transport_fails ex_env 1 ex_notifier
   \<and> (\<exists>r res. added ex_notifier (snd (send ex_env 1 ex_notifier)) =
                 [AtomicSwap 0, HttpDo r (Inr res), BodyClose res])
   \<and> fst (send ex_env 4 ex_notifier) = Some ''marshal: no event type''
   \<and> serialization_fails ex_env 4 ex_notifier"
  using send_error_iff [of ex_env 1 ex_notifier] send_error_iff [of ex_env 4 ex_notifier]
  by (simp add: ex_notifier_simps send_err ex_mem_def ex_event_def ex_env_def
       event_sent_def serialization_fails_def signing_fails_def request_fails_def transport_fails_def
       credential_def NewRequest_def NewAccessToken_def SetValidFor_def SetSha256_def ex_params_def)

text \<open>Claim C10. \<^verbatim>\<open>send\<close> changes the memory of events at the event it is given only, and
  there only \<open>NumDropped\<close>: the eight other fields keep their values. \<^verbatim>\<open>QueueNotify\<close> itself
  leaves the memory of events as it was on every path, the filtered and the rejected ones
  included.\<close>

theorem send_frame:
  "heap (snd (send E event n)) = (heap n)(event := (heap n event)\<lparr>NumDropped := dropped n\<rparr>)
   \<and> Event (heap (snd (send E event n)) event) = Event (heap n event)
   \<and> Room (heap (snd (send E event n)) event) = Room (heap n event)
   \<and> Participant (heap (snd (send E event n)) event) = Participant (heap n event)
   \<and> Track (heap (snd (send E event n)) event) = Track (heap n event)
   \<and> EgressInfo (heap (snd (send E event n)) event) = EgressInfo (heap n event)
   \<and> IngressInfo (heap (snd (send E event n)) event) = IngressInfo (heap n event)
   \<and> Id' (heap (snd (send E event n)) event) = Id' (heap n event)
   \<and> CreatedAt (heap (snd (send E event n)) event) = CreatedAt (heap n event)
   \<and> heap (snd (QueueNotify E ctx event n)) = heap n"
  by (simp add: send_def event_sent_def QueueNotify_def time_Now_def Let_def dropped_Inc_def
      split: prod.splits bool.splits)

lemma send_exchanges:
  "exchanges (added n (snd (send E event n))) =
     (case Marshal E (event_sent event n) of
        Inl err \<Rightarrow> []
      | Inr encoded \<Rightarrow>
          (case ToJWT E (credential E encoded (APIKey (params n)) (APISecret (params n)))
                  (clock E (ticks n)) of
             Inl err \<Rightarrow> []
           | Inr token \<Rightarrow>
               (case NewRequest_err E ''POST'' (URL (params n)) of
                  Some err \<Rightarrow> []
                | None \<Rightarrow>
                    [\<lparr>req_method = ''POST'', req_url = URL (params n), req_body = encoded,
                      req_header =
                        [CanonicalMIMEHeaderKey E (authHeader E) \<mapsto> token,
                         CanonicalMIMEHeaderKey E ''content-type'' \<mapsto>
                           ''application/webhook+json'']\<rparr>])))"
  by (auto simp add: send_trace exchanges_def Let_def NewRequest_def Header_Set_def
      split: sum.splits option.splits)

text \<open>Claim C7. The credential that \<^verbatim>\<open>send\<close> hands to the token library binds the base64
  encoding of the SHA-256 digest of the payload and is valid for five minutes; the digest
  depends on the payload alone (not on the keys, the clock or the state). Every request that
  \<^verbatim>\<open>send\<close> passes to the client has the serialized event as its body and carries, in the
  authentication header, the token made from the credential of that very body at the clock
  reading of the call.\<close>

theorem signing_digest:
  "at_sha256 (credential E payload k s) = Some (EncodeToString E (Sum256 E payload))
   \<and> at_validFor (credential E payload k s) = Some (5 * 60 * 1000000000)
   \<and> at_sha256 (credential E payload k s) = at_sha256 (credential E payload k' s')
   \<and> (\<forall>r \<in> set (exchanges (added n (snd (send E event n)))).
         Marshal E (event_sent event n) = Inr (req_body r)
         \<and> (\<exists>token.
               ToJWT E (credential E (req_body r) (APIKey (params n)) (APISecret (params n)))
                 (clock E (ticks n)) = Inr token
               \<and> req_header r =
                   [CanonicalMIMEHeaderKey E (authHeader E) \<mapsto> token,
                    CanonicalMIMEHeaderKey E ''content-type'' \<mapsto> ''application/webhook+json'']))"
proof (intro conjI ballI)
  show "at_sha256 (credential E payload k s) = Some (EncodeToString E (Sum256 E payload))"
    by (simp add: credential_def SetSha256_def SetValidFor_def NewAccessToken_def)
  show "at_validFor (credential E payload k s) = Some (5 * 60 * 1000000000)"
    by (simp add: credential_def SetSha256_def SetValidFor_def NewAccessToken_def Minute_def)
  show "at_sha256 (credential E payload k s) = at_sha256 (credential E payload k' s')"
    by (simp add: credential_def SetSha256_def SetValidFor_def NewAccessToken_def)
next
  fix r
  assume "r \<in> set (exchanges (added n (snd (send E event n))))"
  then have a: "r \<in> set (exchanges (added n (snd (send E event n))))" .
  have both: "Marshal E (event_sent event n) = Inr (req_body r)
        \<and> (\<exists>token.
              ToJWT E (credential E (req_body r) (APIKey (params n)) (APISecret (params n)))
                (clock E (ticks n)) = Inr token
              \<and> req_header r =
                  [CanonicalMIMEHeaderKey E (authHeader E) \<mapsto> token,
                   CanonicalMIMEHeaderKey E ''content-type'' \<mapsto> ''application/webhook+json''])"
  proof (cases "Marshal E (event_sent event n)")
    case (Inl err)
    with a show ?thesis by (simp add: send_exchanges)
  next
    case m: (Inr encoded)
    show ?thesis
    proof (cases "ToJWT E (credential E encoded (APIKey (params n)) (APISecret (params n)))
                    (clock E (ticks n))")
      case (Inl err)
      with a m show ?thesis by (simp add: send_exchanges)
    next
      case t: (Inr token)
      show ?thesis
      proof (cases "NewRequest_err E ''POST'' (URL (params n))")
        case (Some err)
        with a m t show ?thesis by (simp add: send_exchanges)
      next
        case None
        with a m t show ?thesis by (simp add: send_exchanges)
      qed
    qed
  qed
  from both show "Marshal E (event_sent event n) = Inr (req_body r)"
    by simp
  from both show "\<exists>token.
          ToJWT E (credential E (req_body r) (APIKey (params n)) (APISecret (params n)))
            (clock E (ticks n)) = Inr token
          \<and> req_header r =
              [CanonicalMIMEHeaderKey E (authHeader E) \<mapsto> token,
               CanonicalMIMEHeaderKey E ''content-type'' \<mapsto> ''application/webhook+json'']"
    by simp
qed

theorem signing_digest_witness:
  "exchanges (added ex_notifier (snd (send ex_env 1 ex_notifier))) =
     [\<lparr>req_method = ''POST'', req_url = ''http://hook'',
       req_body = map (\<lambda>c. of_nat (of_char c)) ''room_started'' @ [0],
       req_header = [''Authorization'' \<mapsto> ''key.'' @ [char_of (13 :: nat)],
                     ''content-type'' \<mapsto> ''application/webhook+json'']\<rparr>]
   \<and> at_sha256 (credential ex_env (map (\<lambda>c. of_nat (of_char c)) ''room_started'' @ [0]) ''key'' ''secret'')
       = Some [char_of (13 :: nat)]"
  using signing_digest [of ex_env "map (\<lambda>c. of_nat (of_char c)) ''room_started'' @ [0]"
      "''key''" "''secret''" "''key''" "''secret''" ex_notifier 1]
  by (simp add: send_trace exchanges_def ex_notifier_simps ex_mem_def ex_event_def ex_env_def
      event_sent_def credential_def NewRequest_def NewAccessToken_def SetValidFor_def
      SetSha256_def ex_params_def Header_Set_def Let_def)

subsection \<open>The pool along a run\<close>

lemma job_begin_fields [simp]:
  "pool (snd (job_begin E t n)) = pool n"
  "dropped (snd (job_begin E t n)) = 0"
  "trace (snd (job_begin E t n)) = trace n @ [AtomicSwap (dropped n)]"
  "heap (snd (job_begin E t n)) = (heap n)(t_event t := event_sent (t_event t) n)"
  by (simp_all add: job_begin_def time_Since_def time_Now_def Let_def event_sent_def
      split: prod.splits)

lemma job_io_fields [simp]:
  "pool (snd (job_io E t l n)) = pool n"
  "dropped (snd (job_io E t l n)) = dropped n"
  "heap (snd (job_io E t l n)) = heap n"
  by (simp_all add: job_io_def time_Since_def time_Now_def split_beta)

lemma job_account_fields [simp]:
  "pool (job_account E t l n) = pool n"
  "heap (job_account E t l n) = heap n"
  by (simp_all add: job_account_def dropped_Add_def Let_def split: option.splits)

lemma QueueNotify_pool:
  "pool (snd (QueueNotify E ctx event n)) = pool n
   \<or> (\<not> closed (pool n) \<and>
       (\<exists>k t. pool (snd (QueueNotify E ctx event n)) =
          (pool n)\<lparr>queues := (queues (pool n))
                      (partition_of E k := queues (pool n) (partition_of E k) @ [(k, t)]),
                    accepted := accepted (pool n) @ [(k, t)]\<rparr>))"
  by (auto simp add: QueueNotify_def time_Now_def pool_Submit_def Let_def dropped_Inc_def
      split: prod.splits bool.splits if_splits)

lemma step_pmove:
  assumes "a \<noteq> StopCall True"
  shows "pmove E (pool n) (pool (step E a n))"
proof (cases a)
  case (Notify ctx event)
  then show ?thesis
    using QueueNotify_pool [of E ctx event n] by (auto intro: pmove.intros)
next
  case (Start i)
  then show ?thesis
    by (auto simp add: split_beta intro: pmove.intros split: wstate.splits list.splits)
next
  case (Deliver i)
  then show ?thesis
    by (auto simp add: split_beta intro: pmove.intros split: wstate.splits)
next
  case (Account i)
  then show ?thesis
    by (auto simp add: Let_def intro: pmove.intros split: wstate.splits)
next
  case (StopCall force)
  with assms show ?thesis
    by (auto simp add: Stop_def intro: pmove.intros)
next
  case (KeysCall k s)
  then show ?thesis by (simp add: SetKeys_def pm_same)
next
  case (FilterCall fp)
  then show ?thesis by (simp add: SetFilter_def pm_same)
next
  case (HookCall h)
  then show ?thesis by (simp add: RegisterProcessedHook_def pm_same)
qed

lemma step_kill: "pool (step E (StopCall True) n) = pool_Kill (pool n)"
  by (simp add: Stop_def)

text \<open>The invariant of the partitions holds in a new pool and after every step.\<close>

lemma partition_less [simp]: "partition_of E k < numWorkers"
  by (simp add: partition_of_def numWorkers_def)

lemma on_part_append [simp]: "on_part E i (xs @ ys) = on_part E i xs @ on_part E i ys"
  by (simp add: on_part_def)

lemma on_part_single:
  "on_part E i [j] = (if partition_of E (fst j) = i then [j] else [])"
  by (simp add: on_part_def)

lemma fifo_inv_pmove:
  assumes "pmove E p p'" and "fifo_inv E p"
  shows "fifo_inv E p'"
  using assms
proof cases
  case pm_same
  with assms show ?thesis by simp
next
  case (pm_accept k t)
  with assms(2) show ?thesis
    by (auto simp add: fifo_inv_def on_part_single)
next
  case (pm_start i j q l)
  with assms(2) show ?thesis
    apply (simp add: fifo_inv_def pool_set_def pool_take_def on_part_single)
    apply (intro allI impI)
    subgoal for k
      apply (cases "k = i")
       apply (auto)
      done
    done
next
  case (pm_deliver i j l l')
  with assms(2) show ?thesis
    by (auto simp add: fifo_inv_def pool_set_def)
next
  case (pm_account i j l)
  with assms(2) show ?thesis
    apply (simp add: fifo_inv_def pool_done_def on_part_single)
    apply (intro allI impI)
    subgoal for k
      apply (cases "k = i")
       apply (auto)
      done
    done
next
  case pm_drain
  with assms(2) show ?thesis
    by (auto simp add: fifo_inv_def pool_Drain_def)
qed

lemma fifo_invD:
  assumes "fifo_inv E p" and "i < numWorkers"
  shows "\<forall>j \<in> set (queues p i) \<union> set (current (workers p i)). partition_of E (fst j) = i"
    and "on_part E i (started p) = on_part E i (finished p) @ current (workers p i)"
    and "prefix (on_part E i (started p) @ queues p i) (on_part E i (accepted p))"
    and "\<not> closed p \<Longrightarrow> on_part E i (started p) @ queues p i = on_part E i (accepted p)"
  using assms unfolding fifo_inv_def by blast+

lemma fifo_inv_kill:
  assumes "fifo_inv E p"
  shows "fifo_inv E (pool_Kill p)"
  unfolding fifo_inv_def
proof (intro allI impI)
  fix i
  assume i: "i < numWorkers"
  from fifo_invD(1) [OF assms i]
  have cur: "\<forall>j \<in> set (current (workers p i)). partition_of E (fst j) = i"
    by simp
  note st = fifo_invD(2) [OF assms i] and pre = fifo_invD(3) [OF assms i]
  from pre have "prefix (on_part E i (started p)) (on_part E i (accepted p))"
    by (rule append_prefixD)
  with cur st
  show "(\<forall>j \<in> set (queues (pool_Kill p) i) \<union> set (current (workers (pool_Kill p) i)).
           partition_of E (fst j) = i)
        \<and> on_part E i (started (pool_Kill p)) =
            on_part E i (finished (pool_Kill p)) @ current (workers (pool_Kill p) i)
        \<and> prefix (on_part E i (started (pool_Kill p)) @ queues (pool_Kill p) i)
            (on_part E i (accepted (pool_Kill p)))
        \<and> (\<not> closed (pool_Kill p) \<longrightarrow>
             on_part E i (started (pool_Kill p)) @ queues (pool_Kill p) i =
             on_part E i (accepted (pool_Kill p)))"
    by (simp add: pool_Kill_def)
qed

lemma fifo_inv_step: "fifo_inv E (pool n) \<Longrightarrow> fifo_inv E (pool (step E a n))"
proof (cases "a = StopCall True")
  case True
  assume "fifo_inv E (pool n)"
  with True show ?thesis by (simp only: step_kill fifo_inv_kill)
next
  case False
  assume "fifo_inv E (pool n)"
  with step_pmove [OF False] show ?thesis by (rule fifo_inv_pmove)
qed

lemma fifo_inv_run: "fifo_inv E (pool n) \<Longrightarrow> fifo_inv E (pool (run E acts n))"
  by (induction acts arbitrary: n) (simp_all add: fifo_inv_step)

lemma fifo_inv_new: "fifo_inv E (pool (NewURLNotifier E ps mem))"
  by (simp add: NewURLNotifier_def Let_def NewQueuePool_def fifo_inv_def on_part_def)


lemma by_key_on_part: "by_key k js = by_key k (on_part E (partition_of E k) js)"
  by (induction js) (auto simp add: by_key_def on_part_def)

lemma by_key_prefix: "prefix xs ys \<Longrightarrow> prefix (by_key k xs) (by_key k ys)"
  by (simp add: by_key_def filter_mono_prefix)

lemma current_length: "length (current w) \<le> Suc 0"
  by (cases w) simp_all

lemma fifo_inv_by_key:
  assumes "fifo_inv E p"
  shows "prefix (by_key k (finished p)) (by_key k (started p))
    \<and> prefix (by_key k (started p)) (by_key k (accepted p))
    \<and> length (by_key k (started p)) \<le> Suc (length (by_key k (finished p)))"
proof -
  let ?i = "partition_of E k"
  have i: "?i < numWorkers" by simp
  note st = fifo_invD(2) [OF assms i] and pre = fifo_invD(3) [OF assms i]
  from st have a: "prefix (on_part E ?i (finished p)) (on_part E ?i (started p))"
    by simp
  from pre have b: "prefix (on_part E ?i (started p)) (on_part E ?i (accepted p))"
    by (rule append_prefixD)
  have "length (by_key k (on_part E ?i (started p)))
          \<le> length (by_key k (on_part E ?i (finished p))) + length (by_key k (current (workers p ?i)))"
    by (simp add: st by_key_def)
  also have "length (by_key k (current (workers p ?i))) \<le> Suc 0"
    using current_length [of "workers p ?i"] length_filter_le [of _ "current (workers p ?i)"]
    by (simp add: by_key_def) (meson le_trans length_filter_le)
  finally have c: "length (by_key k (started p)) \<le> Suc (length (by_key k (finished p)))"
    by (simp add: by_key_on_part [symmetric])
  from by_key_prefix [OF a, of k] by_key_prefix [OF b, of k] c show ?thesis
    by (simp add: by_key_on_part [symmetric])
qed


lemmas run_eval =
  ex_notifier_def ex_params_def ex_mem_def ex_event_def ex_env_def
  NewURLNotifier_def NewQueuePool_def newFilter_def RegisterProcessedHook_def
  QueueNotify_def IsAllowed_def time_Now_def time_Since_def time_Sub_def pool_Submit_def
  partition_of_def numWorkers_def
  dropped_Inc_def dropped_Add_def dropped_Swap_def emit_def report_def getProcessedHook_def
  webhookInfo_def
  job_begin_def job_io_def job_account_def send_setDropped_def send_deliver_def client_Do_def
  credential_def NewRequest_def Header_Set_def NewAccessToken_def SetValidFor_def SetSha256_def
  Minute_def pool_take_def pool_set_def pool_done_def Stop_def pool_Drain_def pool_Kill_def
  Let_def

lemma ex_reorder:
  "map fst (accepted (pool (run ex_env
      [Notify 7 1, Notify 7 3, Start 2, Deliver 2, Account 2, Start 1, Deliver 1, Account 1]
      ex_notifier))) = [''a'', ''bb'']
   \<and> map fst (finished (pool (run ex_env
      [Notify 7 1, Notify 7 3, Start 2, Deliver 2, Account 2, Start 1, Deliver 1, Account 1]
      ex_notifier))) = [''bb'', ''a'']"
  by (simp add: run_eval)

subsection \<open>Draining and killing\<close>

lemma mset_concat_upd:
  "i < N \<Longrightarrow>
   mset (concat (map (f(i := x)) [0..<N])) + mset (f i) = mset (concat (map f [0..<N])) + mset x"
proof (induction N)
  case 0
  then show ?case by simp
next
  case (Suc N)
  show ?case
  proof (cases "i = N")
    case True
    have "\<forall>k \<in> set [0..<N]. (f(i := x)) k = f k"
      using True by simp
    then have "map (f(i := x)) [0..<N] = map f [0..<N]"
      by (simp only: map_eq_conv)
    then have "mset (concat (map (f(i := x)) [0..<Suc N])) = mset (concat (map f [0..<N])) + mset x"
      using True by (simp only: upt_Suc_append [OF le0] map_append concat_append mset_append)
        simp
    then show ?thesis
      using True by (simp only: upt_Suc_append [OF le0] map_append concat_append mset_append) simp
  next
    case False
    with Suc.prems have "i < N" by simp
    from Suc.IH [OF this] False show ?thesis
      by (simp add: ac_simps)
  qed
qed

lemma queued_take:
  assumes "i < numWorkers" and "queues p i = j # q"
  shows "mset (queued (pool_take i p)) + {#j#} = mset (queued p)"
proof -
  from mset_concat_upd [OF assms(1), of "queues p" q] assms(2)
  have "mset (concat (map ((queues p)(i := q)) [0..<numWorkers])) + ({#j#} + mset q)
          = mset (concat (map (queues p) [0..<numWorkers])) + mset q"
    by simp
  then show ?thesis
    using assms(2) by (simp add: queued_def pool_take_def)
qed

lemma inflight_workers:
  assumes "i < numWorkers"
  shows "mset (inflight (p\<lparr>workers := (workers p)(i := w)\<rparr>)) + mset (current (workers p i))
           = mset (inflight p) + mset (current w)"
proof -
  have "(\<lambda>k. current (((workers p)(i := w)) k)) = (\<lambda>k. current (workers p k))(i := current w)"
    by (rule ext) simp
  with mset_concat_upd [OF assms, of "\<lambda>k. current (workers p k)" "current w"]
  show ?thesis by (simp add: inflight_def)
qed

lemma load_pmove:
  assumes "pmove E p p'" and "closed p"
  shows "closed p' \<and> load p' = load p"
  using assms
proof cases
  case pm_same
  with assms(2) show ?thesis by simp
next
  case (pm_accept k t)
  with assms(2) show ?thesis by simp
next
  case (pm_start i j q l)
  from queued_take [OF pm_start(2) pm_start(4)]
  have q: "mset (queued (pool_take i p)) + {#j#} = mset (queued p)" .
  from inflight_workers [OF pm_start(2), of "pool_take i p" "AtSend j l"] pm_start(3,4)
  have w: "mset (inflight (pool_set i (AtSend j l) (pool_take i p))) = mset (inflight p) + {#j#}"
    by (simp add: pool_set_def pool_take_def inflight_def)
  have "queued (pool_set i (AtSend j l) (pool_take i p)) = queued (pool_take i p)"
    by (simp add: queued_def pool_set_def)
  with q w pm_start(1,4) assms(2) show ?thesis
    by (simp add: load_def pool_set_def pool_take_def)
next
  case (pm_deliver i j l l')
  from inflight_workers [OF pm_deliver(2), of p "AtAccount j l'"] pm_deliver(3)
  have "mset (inflight (pool_set i (AtAccount j l') p)) = mset (inflight p)"
    by (simp add: pool_set_def)
  with pm_deliver(1) assms(2) show ?thesis
    by (simp add: load_def pool_set_def queued_def)
next
  case (pm_account i j l)
  from inflight_workers [OF pm_account(2), of p Idle] pm_account(3)
  have "mset (inflight (p\<lparr>workers := (workers p)(i := Idle)\<rparr>)) + {#j#} = mset (inflight p)"
    by simp
  moreover have "inflight (pool_done i j p) = inflight (p\<lparr>workers := (workers p)(i := Idle)\<rparr>)"
    by (simp add: inflight_def pool_done_def)
  ultimately show ?thesis
    using pm_account(1) assms(2)
    by (simp add: load_def pool_done_def queued_def)
next
  case pm_drain
  with assms(2) show ?thesis
    by (simp add: load_def pool_Drain_def queued_def inflight_def)
qed

lemma load_run:
  assumes "closed (pool n)" and "StopCall True \<notin> set acts"
  shows "closed (pool (run E acts n)) \<and> load (pool (run E acts n)) = load (pool n)"
  using assms
proof (induction acts arbitrary: n)
  case Nil
  then show ?case by simp
next
  case (Cons a acts)
  from Cons.prems have "a \<noteq> StopCall True" by auto
  from load_pmove [OF step_pmove [OF this] Cons.prems(1)]
  have s: "closed (pool (step E a n))" "load (pool (step E a n)) = load (pool n)"
    by simp_all
  from Cons.IH [OF s(1)] Cons.prems(2) s(2) show ?case by simp
qed

lemma pool_quiet_iff:
  "pool_quiet p = (\<forall>i<numWorkers. workers p i = Idle \<and> queues p i = [])"
  by (auto simp add: pool_quiet_def list_all_iff)

lemma all_idle_iff: "all_idle p = (\<forall>i<numWorkers. workers p i = Idle)"
  by (auto simp add: all_idle_def list_all_iff)

lemma quiet_load:
  assumes "pool_quiet p"
  shows "load p = mset (finished p)"
proof -
  from assms have "queued p = []" "inflight p = []"
    by (simp_all add: pool_quiet_iff queued_def inflight_def)
  then show ?thesis by (simp add: load_def)
qed

text \<open>After a forced stop the queues stay empty, nothing is started, and what is finished
  or in hand stays the same collection of jobs.\<close>

lemma killed_pmove:
  assumes "pmove E p p'" and "killed p"
  shows "killed p' \<and> started p' = started p
         \<and> mset (finished p') + mset (inflight p') = mset (finished p) + mset (inflight p)"
  using assms
proof cases
  case pm_same
  with assms(2) show ?thesis by simp
next
  case (pm_accept k t)
  with assms(2) show ?thesis by (simp add: killed_def)
next
  case (pm_start i j q l)
  with assms(2) show ?thesis by (simp add: killed_def)
next
  case (pm_deliver i j l l')
  from inflight_workers [OF pm_deliver(2), of p "AtAccount j l'"] pm_deliver(3)
  have "mset (inflight (pool_set i (AtAccount j l') p)) = mset (inflight p)"
    by (simp add: pool_set_def)
  with pm_deliver(1) assms(2) show ?thesis
    by (simp add: killed_def pool_set_def)
next
  case (pm_account i j l)
  from inflight_workers [OF pm_account(2), of p Idle] pm_account(3)
  have "mset (inflight (p\<lparr>workers := (workers p)(i := Idle)\<rparr>)) + {#j#} = mset (inflight p)"
    by simp
  moreover have "inflight (pool_done i j p) = inflight (p\<lparr>workers := (workers p)(i := Idle)\<rparr>)"
    by (simp add: inflight_def pool_done_def)
  ultimately show ?thesis
    using pm_account(1) assms(2)
    by (simp add: killed_def pool_done_def)
next
  case pm_drain
  with assms(2) show ?thesis
    by (simp add: killed_def pool_Drain_def inflight_def)
qed

lemma killed_kill: "killed (pool_Kill p)"
  by (simp add: killed_def pool_Kill_def)

lemma killed_step:
  assumes "killed (pool n)"
  shows "killed (pool (step E a n)) \<and> started (pool (step E a n)) = started (pool n)
         \<and> mset (finished (pool (step E a n))) + mset (inflight (pool (step E a n)))
             = mset (finished (pool n)) + mset (inflight (pool n))"
proof (cases "a = StopCall True")
  case True
  with assms show ?thesis
    by (simp add: Stop_def killed_def pool_Kill_def inflight_def)
next
  case False
  from killed_pmove [OF step_pmove [OF False] assms] show ?thesis .
qed

lemma killed_run:
  assumes "killed (pool n)"
  shows "killed (pool (run E acts n)) \<and> started (pool (run E acts n)) = started (pool n)
         \<and> mset (finished (pool (run E acts n))) + mset (inflight (pool (run E acts n)))
             = mset (finished (pool n)) + mset (inflight (pool n))"
  using assms
proof (induction acts arbitrary: n)
  case Nil
  then show ?case by simp
next
  case (Cons a acts)
  from killed_step [OF Cons.prems, of E a]
  have s: "killed (pool (step E a n))" "started (pool (step E a n)) = started (pool n)"
    "mset (finished (pool (step E a n))) + mset (inflight (pool (step E a n)))
       = mset (finished (pool n)) + mset (inflight (pool n))"
    by simp_all
  from Cons.IH [OF s(1)] s(2,3) show ?case by simp
qed

lemma killed_queued: "killed p \<Longrightarrow> queued p = []"
  by (simp add: killed_def queued_def)

subsection \<open>A schedule that drains the pool\<close>

lemma run_append: "run E (xs @ ys) n = run E ys (run E xs n)"
  by (induction xs arbitrary: n) simp_all

lemma upd_same: "f i = v \<Longrightarrow> f = f(i := v)"
  by auto

lemma step_Start_pool:
  assumes "i < numWorkers" and "workers (pool n) i = Idle" and "queues (pool n) i = j # q"
  shows "\<exists>l. workers (pool (step E (Start i) n)) = (workers (pool n))(i := AtSend j l)
             \<and> queues (pool (step E (Start i) n)) = (queues (pool n))(i := q)"
  using assms by (simp add: split_beta pool_set_def pool_take_def) (rule exI, rule refl)

lemma step_Deliver_pool:
  assumes "i < numWorkers" and "workers (pool n) i = AtSend j l"
  shows "\<exists>l'. workers (pool (step E (Deliver i) n)) = (workers (pool n))(i := AtAccount j l')
             \<and> queues (pool (step E (Deliver i) n)) = queues (pool n)"
  using assms by (simp add: split_beta pool_set_def) (rule exI, rule refl)

lemma step_Account_pool:
  assumes "i < numWorkers" and "workers (pool n) i = AtAccount j l"
  shows "workers (pool (step E (Account i) n)) = (workers (pool n))(i := Idle)
         \<and> queues (pool (step E (Account i) n)) = queues (pool n)"
  using assms by (simp add: Let_def pool_done_def)

lemma run_finish_steps:
  assumes "i < numWorkers"
  shows "workers (pool (run E (finish_steps i (workers (pool n) i)) n)) = (workers (pool n))(i := Idle)
         \<and> queues (pool (run E (finish_steps i (workers (pool n) i)) n)) = queues (pool n)"
proof (cases "workers (pool n) i")
  case Idle
  then show ?thesis by (simp add: upd_same [of "workers (pool n)" i Idle, symmetric])
next
  case (AtSend j l)
  from step_Deliver_pool [OF assms AtSend, of E] obtain l' where
    d: "workers (pool (step E (Deliver i) n)) = (workers (pool n))(i := AtAccount j l')"
       "queues (pool (step E (Deliver i) n)) = queues (pool n)"
    by blast
  from d(1) have "workers (pool (step E (Deliver i) n)) i = AtAccount j l'" by simp
  from step_Account_pool [OF assms this, of E] d AtSend show ?thesis
    by simp
next
  case (AtAccount j l)
  from step_Account_pool [OF assms AtAccount, of E] AtAccount show ?thesis
    by simp
qed

lemma run_one_job:
  assumes "i < numWorkers" and "workers (pool n) i = Idle" and "queues (pool n) i = j # q"
  shows "workers (pool (run E [Start i, Deliver i, Account i] n)) = workers (pool n)
         \<and> queues (pool (run E [Start i, Deliver i, Account i] n)) = (queues (pool n))(i := q)"
proof -
  from step_Start_pool [OF assms, of E] obtain l where
    s: "workers (pool (step E (Start i) n)) = (workers (pool n))(i := AtSend j l)"
       "queues (pool (step E (Start i) n)) = (queues (pool n))(i := q)"
    by blast
  from s(1) have "workers (pool (step E (Start i) n)) i = AtSend j l" by simp
  from step_Deliver_pool [OF assms(1) this, of E] obtain l' where
    d: "workers (pool (step E (Deliver i) (step E (Start i) n)))
          = (workers (pool (step E (Start i) n)))(i := AtAccount j l')"
       "queues (pool (step E (Deliver i) (step E (Start i) n))) = queues (pool (step E (Start i) n))"
    by blast
  from d(1) have "workers (pool (step E (Deliver i) (step E (Start i) n))) i = AtAccount j l'"
    by simp
  from step_Account_pool [OF assms(1) this, of E] d s assms(2) show ?thesis
    by (simp add: upd_same [of "workers (pool n)" i Idle, symmetric])
qed

lemma run_jobs:
  assumes "i < numWorkers" and "workers (pool n) i = Idle" and "length (queues (pool n) i) = m"
  shows "workers (pool (run E (concat (replicate m [Start i, Deliver i, Account i])) n))
           = workers (pool n)
         \<and> queues (pool (run E (concat (replicate m [Start i, Deliver i, Account i])) n))
           = (queues (pool n))(i := [])"
  using assms
proof (induction m arbitrary: n)
  case 0
  then show ?case by (simp add: upd_same [of "queues (pool n)" i "[]", symmetric])
next
  case (Suc m)
  from Suc.prems(3) obtain j q where jq: "queues (pool n) i = j # q" and q: "length q = m"
    by (cases "queues (pool n) i") auto
  define n1 where "n1 = run E [Start i, Deliver i, Account i] n"
  from run_one_job [OF Suc.prems(1,2) jq, of E]
  have o: "workers (pool n1) = workers (pool n)" "queues (pool n1) = (queues (pool n))(i := q)"
    by (simp_all only: n1_def)
  from o Suc.prems(2) q have "workers (pool n1) i = Idle" "length (queues (pool n1) i) = m"
    by simp_all
  from Suc.IH [OF Suc.prems(1) this]
  have "workers (pool (run E (concat (replicate m [Start i, Deliver i, Account i])) n1))
          = workers (pool n)
        \<and> queues (pool (run E (concat (replicate m [Start i, Deliver i, Account i])) n1))
          = (queues (pool n))(i := [])"
    by (simp only: o fun_upd_upd)
  moreover have "run E (concat (replicate (Suc m) [Start i, Deliver i, Account i])) n
      = run E (concat (replicate m [Start i, Deliver i, Account i])) n1"
    by (simp only: replicate_Suc concat.simps run_append n1_def)
  ultimately show ?case by (simp only:)
qed

lemma run_worker_schedule:
  assumes "i < numWorkers"
  shows "workers (pool (run E (worker_schedule i (pool n)) n)) = (workers (pool n))(i := Idle)
         \<and> queues (pool (run E (worker_schedule i (pool n)) n)) = (queues (pool n))(i := [])"
proof -
  define n1 where "n1 = run E (finish_steps i (workers (pool n) i)) n"
  from run_finish_steps [OF assms, of E n]
  have f: "workers (pool n1) = (workers (pool n))(i := Idle)" "queues (pool n1) = queues (pool n)"
    by (simp_all only: n1_def)
  then have "workers (pool n1) i = Idle" "length (queues (pool n1) i) = length (queues (pool n) i)"
    by simp_all
  from run_jobs [OF assms this, of E]
  have "workers (pool (run E (concat (replicate (length (queues (pool n) i))
                 [Start i, Deliver i, Account i])) n1)) = (workers (pool n))(i := Idle)
        \<and> queues (pool (run E (concat (replicate (length (queues (pool n) i))
                 [Start i, Deliver i, Account i])) n1)) = (queues (pool n))(i := [])"
    by (simp only: f)
  then show ?thesis
    by (simp only: worker_schedule_def run_append n1_def)
qed

lemma run_schedules:
  assumes "distinct ks" and "\<forall>k \<in> set ks. k < numWorkers"
  shows "(\<forall>k. workers (pool (run E (concat (map (\<lambda>k. worker_schedule k (pool n)) ks)) n)) k
               = (if k \<in> set ks then Idle else workers (pool n) k))
         \<and> (\<forall>k. queues (pool (run E (concat (map (\<lambda>k. worker_schedule k (pool n)) ks)) n)) k
               = (if k \<in> set ks then [] else queues (pool n) k))"
  using assms
proof (induction ks arbitrary: n)
  case Nil
  then show ?case by simp
next
  case (Cons i ks)
  define n1 where "n1 = run E (worker_schedule i (pool n)) n"
  from Cons.prems have i: "i < numWorkers" and d: "distinct ks" "i \<notin> set ks"
    and b: "\<forall>k \<in> set ks. k < numWorkers"
    by simp_all
  from run_worker_schedule [OF i, of E n]
  have w: "workers (pool n1) = (workers (pool n))(i := Idle)"
    "queues (pool n1) = (queues (pool n))(i := [])"
    by (simp_all only: n1_def)
  have "\<forall>k \<in> set ks. worker_schedule k (pool n) = worker_schedule k (pool n1)"
    using d(2) w by (auto simp add: worker_schedule_def)
  then have same: "map (\<lambda>k. worker_schedule k (pool n)) ks = map (\<lambda>k. worker_schedule k (pool n1)) ks"
    by (simp only: map_eq_conv)
  have r: "run E (concat (map (\<lambda>k. worker_schedule k (pool n)) (i # ks))) n
      = run E (concat (map (\<lambda>k. worker_schedule k (pool n1)) ks)) n1"
    by (simp only: list.map concat.simps run_append n1_def [symmetric] same)
  from Cons.IH [OF d(1) b, of n1] w d(2) show ?case
    unfolding r by auto
qed

lemma drain_schedule_quiet: "pool_quiet (pool (run E (drain_schedule (pool n)) n))"
proof -
  have "distinct [0..<numWorkers]" "\<forall>k \<in> set [0..<numWorkers]. k < numWorkers"
    by simp_all
  from run_schedules [OF this, of E n] show ?thesis
    by (simp add: drain_schedule_def pool_quiet_iff)
qed

lemma finish_steps_no_stop: "StopCall f \<notin> set (finish_steps i w)"
  by (cases w) simp_all

lemma drain_schedule_no_stop: "StopCall f \<notin> set (drain_schedule p)"
  by (auto simp add: drain_schedule_def worker_schedule_def finish_steps_no_stop)

subsection \<open>Order of delivery and shutdown\<close>

lemma QueueNotify_accepted:
  assumes "IsAllowed (filter' n) (Event (heap n event))"
    and "fst (pool_Submit E (eventKey E (heap n event))
               \<lparr>t_ctx = ctx, t_event = event, t_enqueuedAt = clock E (ticks n)\<rparr> (pool n))"
  shows "accepted (pool (snd (QueueNotify E ctx event n))) =
           accepted (pool n) @
             [(eventKey E (heap n event),
               \<lparr>t_ctx = ctx, t_event = event, t_enqueuedAt = clock E (ticks n)\<rparr>)]"
  using assms
  by (auto simp add: QueueNotify_def time_Now_def Let_def pool_Submit_def
      split: prod.splits bool.splits if_splits)

text \<open>Claim C8. Along every run from a new notifier and for every key, the jobs submitted
  under that key are started in the order in which they were accepted and finished in the order
  in which they were started, one at a time: the finished ones are a prefix of the started
  ones, which are a prefix of the accepted ones, and at most one is started and not finished.
  A job is accepted under the key \<^verbatim>\<open>eventKey\<close> gives its event at the call of
  \<^verbatim>\<open>QueueNotify\<close>. Across keys there is no such order: in the last two lines an event of
  room \<open>bb\<close> is accepted after one of room \<open>a\<close> and finished before it.\<close>

theorem delivery_order:
  "prefix (by_key k (finished (pool (run E acts (NewURLNotifier E ps mem)))))
          (by_key k (started (pool (run E acts (NewURLNotifier E ps mem)))))
   \<and> prefix (by_key k (started (pool (run E acts (NewURLNotifier E ps mem)))))
             (by_key k (accepted (pool (run E acts (NewURLNotifier E ps mem)))))
   \<and> length (by_key k (started (pool (run E acts (NewURLNotifier E ps mem)))))
        \<le> Suc (length (by_key k (finished (pool (run E acts (NewURLNotifier E ps mem))))))
   \<and> (IsAllowed (filter' n) (Event (heap n event)) \<longrightarrow>
        fst (pool_Submit E (eventKey E (heap n event))
               \<lparr>t_ctx = ctx, t_event = event, t_enqueuedAt = clock E (ticks n)\<rparr> (pool n)) \<longrightarrow>
        accepted (pool (snd (QueueNotify E ctx event n))) =
          accepted (pool n) @
            [(eventKey E (heap n event),
              \<lparr>t_ctx = ctx, t_event = event, t_enqueuedAt = clock E (ticks n)\<rparr>)])
   \<and> map fst (accepted (pool (run ex_env
         [Notify 7 1, Notify 7 3, Start 2, Deliver 2, Account 2, Start 1, Deliver 1, Account 1]
         ex_notifier))) = [''a'', ''bb'']
   \<and> map fst (finished (pool (run ex_env
         [Notify 7 1, Notify 7 3, Start 2, Deliver 2, Account 2, Start 1, Deliver 1, Account 1]
         ex_notifier))) = [''bb'', ''a'']"
proof -
  have "fifo_inv E (pool (run E acts (NewURLNotifier E ps mem)))"
    by (rule fifo_inv_run) (rule fifo_inv_new)
  from fifo_inv_by_key [OF this, of k] QueueNotify_accepted [of n event E ctx] ex_reorder
  show ?thesis by blast
qed

lemma ex_same_key:
  "map (\<lambda>j. t_event (snd j)) (by_key ''a'' (accepted (pool (run ex_env
      [Notify 7 1, Start 1, Notify 8 2, Notify 9 3, Start 2, Deliver 2, Deliver 1, Account 1,
       Account 2, Start 1, Deliver 1]
      ex_notifier)))) = [1, 2]
   \<and> map (\<lambda>j. t_event (snd j)) (by_key ''a'' (started (pool (run ex_env
      [Notify 7 1, Start 1, Notify 8 2, Notify 9 3, Start 2, Deliver 2, Deliver 1, Account 1,
       Account 2, Start 1, Deliver 1]
      ex_notifier)))) = [1, 2]
   \<and> map (\<lambda>j. t_event (snd j)) (by_key ''a'' (finished (pool (run ex_env
      [Notify 7 1, Start 1, Notify 8 2, Notify 9 3, Start 2, Deliver 2, Deliver 1, Account 1,
       Account 2, Start 1, Deliver 1]
      ex_notifier)))) = [1]"
  by (simp add: run_eval by_key_def)

lemma ex_accept:
  "IsAllowed (filter' ex_notifier) (Event (heap ex_notifier 1))
   \<and> fst (pool_Submit ex_env (eventKey ex_env (heap ex_notifier 1))
            \<lparr>t_ctx = 7, t_event = 1, t_enqueuedAt = clock ex_env (ticks ex_notifier)\<rparr>
            (pool ex_notifier))"
  by (simp add: run_eval)

theorem delivery_order_witness:
  "map (\<lambda>j. t_event (snd j)) (by_key ''a'' (accepted (pool (run ex_env
      [Notify 7 1, Start 1, Notify 8 2, Notify 9 3, Start 2, Deliver 2, Deliver 1, Account 1,
       Account 2, Start 1, Deliver 1]
      ex_notifier)))) = [1, 2]
   \<and> prefix (by_key ''a'' (started (pool (run ex_env
      [Notify 7 1, Start 1, Notify 8 2, Notify 9 3, Start 2, Deliver 2, Deliver 1, Account 1,
       Account 2, Start 1, Deliver 1]
      ex_notifier))))
       (by_key ''a'' (accepted (pool (run ex_env
      [Notify 7 1, Start 1, Notify 8 2, Notify 9 3, Start 2, Deliver 2, Deliver 1, Account 1,
       Account 2, Start 1, Deliver 1]
      ex_notifier))))
   \<and> IsAllowed (filter' ex_notifier) (Event (heap ex_notifier 1))
   \<and> fst (pool_Submit ex_env (eventKey ex_env (heap ex_notifier 1))
            \<lparr>t_ctx = 7, t_event = 1, t_enqueuedAt = clock ex_env (ticks ex_notifier)\<rparr>
            (pool ex_notifier))
   \<and> accepted (pool (snd (QueueNotify ex_env 7 1 ex_notifier))) =
        accepted (pool ex_notifier) @
          [(eventKey ex_env (heap ex_notifier 1),
            \<lparr>t_ctx = 7, t_event = 1, t_enqueuedAt = clock ex_env (ticks ex_notifier)\<rparr>)]"
  using delivery_order [of "''a''" ex_env
      "[Notify 7 1, Start 1, Notify 8 2, Notify 9 3, Start 2, Deliver 2, Deliver 1, Account 1,
        Account 2, Start 1, Deliver 1]" ex_params ex_mem ex_notifier 1 7]
    ex_same_key ex_accept
  unfolding ex_notifier_def [symmetric]
  by blast

lemma load_Drain: "load (pool_Drain p) = load p"
  by (simp add: load_def pool_Drain_def queued_def inflight_def)

text \<open>Claim C9. \<^verbatim>\<open>Stop\<close> with \<open>force = false\<close> drains the pool and with \<open>force = true\<close>
  kills it. After a drain, as long as nobody kills the pool, no job is lost and none is added:
  what is finished, queued and in hand stays the same collection of jobs, so when the pool has
  come to rest (every queue empty, every worker idle) the finished jobs are those finished
  before together with all that were queued or in hand at the call; and the pool can come to
  rest: the schedule that lets worker after worker finish its jobs gets it there. After a
  kill no queue holds a job, no further job is started, and the jobs finished from then on are
  among those in hand at the call.\<close>

theorem Stop_drain_kill:
  "pool (Stop False n) = pool_Drain (pool n) \<and> pool (Stop True n) = pool_Kill (pool n)
   \<and> (StopCall True \<notin> set acts \<longrightarrow>
        load (pool (run E acts (Stop False n))) = load (pool n))
   \<and> (StopCall True \<notin> set acts \<longrightarrow> pool_quiet (pool (run E acts (Stop False n))) \<longrightarrow>
        mset (finished (pool (run E acts (Stop False n)))) =
          mset (finished (pool n)) + mset (queued (pool n)) + mset (inflight (pool n)))
   \<and> StopCall True \<notin> set (drain_schedule (pool (Stop False n)))
   \<and> pool_quiet (pool (run E (drain_schedule (pool (Stop False n))) (Stop False n)))
   \<and> queued (pool (run E acts (Stop True n))) = []
   \<and> started (pool (run E acts (Stop True n))) = started (pool n)
   \<and> mset (finished (pool (run E acts (Stop True n))))
        \<subseteq># mset (finished (pool n)) + mset (inflight (pool n))"
proof -
  have c: "closed (pool (Stop False n))"
    by (simp add: Stop_def pool_Drain_def)
  have l: "load (pool (Stop False n)) = load (pool n)"
    by (simp add: Stop_def load_Drain)
  have drain: "load (pool (run E acts (Stop False n))) = load (pool n)"
    if "StopCall True \<notin> set acts"
    using load_run [OF c that, of E] l by simp
  have quiet: "mset (finished (pool (run E acts (Stop False n)))) =
          mset (finished (pool n)) + mset (queued (pool n)) + mset (inflight (pool n))"
    if "StopCall True \<notin> set acts" and "pool_quiet (pool (run E acts (Stop False n)))"
    using drain [OF that(1)] quiet_load [OF that(2)] by (simp add: load_def)
  have k: "killed (pool (Stop True n))"
    by (simp add: Stop_def killed_kill)
  have k0: "started (pool (Stop True n)) = started (pool n)"
    "finished (pool (Stop True n)) = finished (pool n)"
    "inflight (pool (Stop True n)) = inflight (pool n)"
    by (simp_all add: Stop_def pool_Kill_def inflight_def)
  from killed_run [OF k, of E acts] k0
  have kr: "killed (pool (run E acts (Stop True n)))"
    "started (pool (run E acts (Stop True n))) = started (pool n)"
    "mset (finished (pool (run E acts (Stop True n))))
       + mset (inflight (pool (run E acts (Stop True n))))
       = mset (finished (pool n)) + mset (inflight (pool n))"
    by simp_all
  from kr(3) have sub: "mset (finished (pool (run E acts (Stop True n))))
        \<subseteq># mset (finished (pool n)) + mset (inflight (pool n))"
    by (metis mset_subset_eq_add_left)
  show ?thesis
    using drain quiet drain_schedule_no_stop [of True "pool (Stop False n)"]
      drain_schedule_quiet [of E "Stop False n"] killed_queued [OF kr(1)] kr(2) sub
    by (simp add: Stop_def)
qed


lemma ex_drain:
  "pool_quiet (pool (run ex_env [Start 1, Deliver 1, Account 1, Start 2, Deliver 2, Account 2]
                      (Stop False ex_queued)))
   \<and> map (\<lambda>j. t_event (snd j))
        (finished (pool (run ex_env [Start 1, Deliver 1, Account 1, Start 2, Deliver 2, Account 2]
                          (Stop False ex_queued)))) = [1, 3]
   \<and> finished (pool (run ex_env [Start 1, Deliver 1, Account 1, Start 2, Deliver 2, Account 2]
                       (Stop True ex_queued))) = []"
  by (simp add: ex_queued_def run_eval pool_quiet_def list_all_iff)

theorem Stop_drain_kill_witness:
  "StopCall True \<notin> set [Start 1, Deliver 1, Account 1, Start 2, Deliver 2, Account 2]
   \<and> pool_quiet (pool (run ex_env [Start 1, Deliver 1, Account 1, Start 2, Deliver 2, Account 2]
                      (Stop False ex_queued)))
   \<and> mset (finished (pool (run ex_env [Start 1, Deliver 1, Account 1, Start 2, Deliver 2, Account 2]
                          (Stop False ex_queued)))) =
        mset (finished (pool ex_queued)) + mset (queued (pool ex_queued))
        + mset (inflight (pool ex_queued))
   \<and> map (\<lambda>j. t_event (snd j))
        (finished (pool (run ex_env [Start 1, Deliver 1, Account 1, Start 2, Deliver 2, Account 2]
                          (Stop False ex_queued)))) = [1, 3]
   \<and> finished (pool (run ex_env [Start 1, Deliver 1, Account 1, Start 2, Deliver 2, Account 2]
                       (Stop True ex_queued))) = []"
proof -
  have a: "StopCall True \<notin> set [Start 1, Deliver 1, Account 1, Start 2, Deliver 2, Account 2]"
    by simp
  from Stop_drain_kill [of ex_queued "[Start 1, Deliver 1, Account 1, Start 2, Deliver 2, Account 2]" ex_env]
  have "StopCall True \<notin> set [Start 1, Deliver 1, Account 1, Start 2, Deliver 2, Account 2] \<longrightarrow>
        pool_quiet (pool (run ex_env [Start 1, Deliver 1, Account 1, Start 2, Deliver 2, Account 2]
                      (Stop False ex_queued))) \<longrightarrow>
        mset (finished (pool (run ex_env [Start 1, Deliver 1, Account 1, Start 2, Deliver 2, Account 2]
                          (Stop False ex_queued)))) =
          mset (finished (pool ex_queued)) + mset (queued (pool ex_queued))
          + mset (inflight (pool ex_queued))"
    by blast
  with a ex_drain show ?thesis by blast
qed

subsection \<open>Counting drops along a trace\<close>

lemma drops_since_skip:
  "incs_only M \<Longrightarrow> drops_since (rev M @ r) = inc_count M + drops_since r"
proof (induction M rule: rev_induct)
  case Nil
  then show ?case by (simp add: inc_count_def)
next
  case (snoc x M)
  then have m: "incs_only M" and x: "x = AtomicInc \<or> neutral x"
    by (simp_all add: incs_only_def)
  from snoc.IH [OF m] x show ?case
    by (cases x) (auto simp add: inc_count_def)
qed

lemma drops_within_skip:
  "incs_only M \<Longrightarrow> drops_within (rev M @ AtomicSwap v # r) = inc_count M"
proof (induction M rule: rev_induct)
  case Nil
  then show ?case by (simp add: inc_count_def)
next
  case (snoc x M)
  then have m: "incs_only M" and x: "x = AtomicInc \<or> neutral x"
    by (simp_all add: incs_only_def)
  from snoc.IH [OF m] x show ?case
    by (cases x) (auto simp add: inc_count_def)
qed

lemma reads_exact_skip:
  "incs_only X \<Longrightarrow> reads_exact (rev X @ r) = reads_exact r"
proof (induction X rule: rev_induct)
  case Nil
  then show ?case by simp
next
  case (snoc x X)
  then have m: "incs_only X" and x: "x = AtomicInc \<or> neutral x"
    by (simp_all add: incs_only_def)
  from snoc.IH [OF m] x show ?case
    by (cases x) auto
qed

lemma reads_exact_tail: "reads_exact (Y @ r) \<Longrightarrow> reads_exact r"
proof (induction Y)
  case Nil
  then show ?case by simp
next
  case (Cons y Y)
  then show ?case by (cases y) simp_all
qed

lemma reads_exact_at:
  assumes "reads_exact (rev tr)" and "tr = A @ AtomicSwap v # B"
  shows "v = of_nat (drops_since (rev A))"
proof -
  from assms have "reads_exact (rev B @ AtomicSwap v # rev A)" by simp
  then have "reads_exact (AtomicSwap v # rev A)" by (rule reads_exact_tail)
  then show ?thesis by simp
qed

lemma incs_only_append [simp]: "incs_only (M @ X) = (incs_only M \<and> incs_only X)"
  by (simp add: incs_only_def)

lemma inc_count_append [simp]: "inc_count (M @ X) = inc_count M + inc_count X"
  by (simp add: inc_count_def)

lemma neutral_incs_only: "list_all neutral H \<Longrightarrow> incs_only H \<and> inc_count H = 0"
  by (induction H) (auto simp add: incs_only_def inc_count_def)

subsection \<open>What each step does to the trace and the counter\<close>

lemma idle_current: "(w = Idle) = (current w = [])"
  by (cases w) simp_all

lemma report_neutral:
  "\<exists>H. trace (report ctx w n) = trace n @ H \<and> list_all neutral H"
  by (simp add: report_trace split: option.splits)

lemma QueueNotify_effect:
  "\<exists>X. trace (snd (QueueNotify E ctx event n)) = trace n @ X \<and> incs_only X
       \<and> dropped (snd (QueueNotify E ctx event n)) = dropped n + of_nat (inc_count X)
       \<and> heap (snd (QueueNotify E ctx event n)) = heap n
       \<and> workers (pool (snd (QueueNotify E ctx event n))) = workers (pool n)"
proof (cases "IsAllowed (filter' n) (Event (heap n event))")
  case False
  then show ?thesis by (simp add: QueueNotify_def incs_only_def inc_count_def)
next
  case True
  show ?thesis
  proof (cases "fst (pool_Submit E (eventKey E (heap n event))
                  \<lparr>t_ctx = ctx, t_event = event, t_enqueuedAt = clock E (ticks n)\<rparr> (pool n))")
    case acc: True
    with True show ?thesis
      by (auto simp add: QueueNotify_def time_Now_def Let_def pool_Submit_def incs_only_def
          inc_count_def split: prod.splits bool.splits if_splits)
  next
    case rej: False
    note st = QueueNotify_rejected_state [OF True rej]
    show ?thesis
      unfolding st
      by (simp add: report_trace dropped_Inc_def incs_only_def inc_count_def
          split: option.splits)
  qed
qed

lemma send_deliver_neutral:
  "\<exists>Y. trace (snd (send_deliver E event n)) = trace n @ Y \<and> list_all neutral Y"
  by (simp add: send_deliver_def time_Now_def client_Do_def Let_def
      split: sum.splits prod.splits)

lemma job_io_neutral:
  "\<exists>Y. trace (snd (job_io E t l n)) = trace n @ Y \<and> list_all neutral Y"
  using send_deliver_neutral [of E "t_event t" n]
  by (simp add: job_io_def time_Since_def time_Now_def split_beta)

lemma job_account_effect:
  "\<exists>H. list_all neutral H \<and>
     (case l_err l of
        None \<Rightarrow>
          trace (job_account E t l n) = trace n @ Infow ''sent webhook'' (l_fields l) # H
          \<and> dropped (job_account E t l n) = dropped n
      | Some err \<Rightarrow>
          trace (job_account E t l n) =
            trace n @ Warnw ''failed to send webhook'' err (l_fields l)
              # AtomicAdd (NumDropped (heap n (t_event t)) + 1) # H
          \<and> dropped (job_account E t l n) = dropped n + (NumDropped (heap n (t_event t)) + 1))"
proof (cases "l_err l")
  case None
  define n1 where "n1 = emit (Infow ''sent webhook'' (l_fields l)) n"
  define w where "w = webhookInfo (heap n1 (t_event t)) (t_enqueuedAt t) (l_queueDuration l)
    (l_sendStart l) (l_sendDuration l) (URL (params n1)) False (l_err l)"
  have j: "job_account E t l n = report (t_ctx t) w n1"
    using None by (simp add: job_account_def Let_def n1_def w_def)
  from report_neutral [of "t_ctx t" w n1] obtain H where
    "trace (report (t_ctx t) w n1) = trace n1 @ H" and "list_all neutral H"
    by blast
  with None show ?thesis
    by (intro exI [of _ H]) (simp add: j n1_def)
next
  case (Some err)
  define n1 where "n1 = dropped_Add (NumDropped (heap n (t_event t)) + 1)
    (emit (Warnw ''failed to send webhook'' err (l_fields l)) n)"
  define w where "w = webhookInfo (heap n1 (t_event t)) (t_enqueuedAt t) (l_queueDuration l)
    (l_sendStart l) (l_sendDuration l) (URL (params n1)) False (l_err l)"
  have j: "job_account E t l n = report (t_ctx t) w n1"
    using Some by (simp add: job_account_def Let_def n1_def w_def)
  from report_neutral [of "t_ctx t" w n1] obtain H where
    "trace (report (t_ctx t) w n1) = trace n1 @ H" and "list_all neutral H"
    by blast
  with Some show ?thesis
    by (intro exI [of _ H]) (simp add: j n1_def dropped_Add_def)
qed

subsection \<open>The accounting invariant\<close>

lemma acct_inv_idleI:
  assumes "reads_exact (rev (trace n))" and "all_idle (pool n)"
    and "dropped n = of_nat (drops_since (rev (trace n)))"
  shows "acct_inv n"
  using assms unfolding acct_inv_def by blast

lemma acct_inv_busyI:
  assumes "reads_exact (rev (trace n))" and "i < numWorkers"
    and "current (workers (pool n) i) = [j]"
    and "\<forall>k<numWorkers. k \<noteq> i \<longrightarrow> workers (pool n) k = Idle"
    and "trace n = A @ AtomicSwap (NumDropped (heap n (t_event (snd j)))) # M"
    and "incs_only M" and "dropped n = of_nat (inc_count M)"
  shows "acct_inv n"
  using assms unfolding acct_inv_def by blast

lemma acct_inv_cases:
  assumes "acct_inv n"
  obtains (idle) "reads_exact (rev (trace n))" "all_idle (pool n)"
      "dropped n = of_nat (drops_since (rev (trace n)))"
    | (busy) i j A M where "reads_exact (rev (trace n))" "i < numWorkers"
      "current (workers (pool n) i) = [j]"
      "\<forall>k<numWorkers. k \<noteq> i \<longrightarrow> workers (pool n) k = Idle"
      "trace n = A @ AtomicSwap (NumDropped (heap n (t_event (snd j)))) # M"
      "incs_only M" "dropped n = of_nat (inc_count M)"
  using assms unfolding acct_inv_def by blast

text \<open>A step that appends increments and neutral observations, adds the increments to the
  counter and leaves the events and the jobs in hand alone keeps the invariant.\<close>

lemma acct_inv_extend:
  assumes inv: "acct_inv n"
    and tr: "trace n' = trace n @ X" and x: "incs_only X"
    and dr: "dropped n' = dropped n + of_nat (inc_count X)"
    and hp: "heap n' = heap n"
    and wk: "\<forall>k. current (workers (pool n') k) = current (workers (pool n) k)"
  shows "acct_inv n'"
  using inv
proof (cases rule: acct_inv_cases)
  case idle
  from idle(1) x have r: "reads_exact (rev (trace n'))"
    by (simp add: tr reads_exact_skip)
  from idle(2) wk have a: "all_idle (pool n')"
    by (simp add: all_idle_iff idle_current)
  from idle(3) x have "dropped n' = of_nat (drops_since (rev (trace n')))"
    by (simp add: tr dr drops_since_skip)
  with r a show ?thesis by (rule acct_inv_idleI)
next
  case (busy i j A M)
  from busy(1) x have r: "reads_exact (rev (trace n'))"
    by (simp add: tr reads_exact_skip)
  from busy(3) wk have c: "current (workers (pool n') i) = [j]" by simp
  from busy(4) wk have o: "\<forall>k<numWorkers. k \<noteq> i \<longrightarrow> workers (pool n') k = Idle"
    by (simp add: idle_current)
  from busy(5) have t: "trace n' = A @ AtomicSwap (NumDropped (heap n' (t_event (snd j)))) # (M @ X)"
    by (simp add: tr hp)
  from busy(6) x have m: "incs_only (M @ X)" by simp
  from busy(7) have d: "dropped n' = of_nat (inc_count (M @ X))"
    by (simp add: dr)
  from r busy(2) c o t m d show ?thesis by (rule acct_inv_busyI)
qed

lemma acct_inv_same:
  assumes "acct_inv n" and "trace n' = trace n" and "dropped n' = dropped n"
    and "heap n' = heap n" and "workers (pool n') = workers (pool n)"
  shows "acct_inv n'"
  using assms(1)
  by (rule acct_inv_extend [where X = "[]"]) (simp_all add: assms incs_only_def inc_count_def)

lemma acct_inv_Notify:
  assumes "acct_inv n"
  shows "acct_inv (step E (Notify ctx event) n)"
proof -
  from QueueNotify_effect [of E ctx event n] obtain X where
    a: "trace (snd (QueueNotify E ctx event n)) = trace n @ X" and b: "incs_only X"
    and c: "dropped (snd (QueueNotify E ctx event n)) = dropped n + of_nat (inc_count X)"
    and d: "heap (snd (QueueNotify E ctx event n)) = heap n"
    and e: "workers (pool (snd (QueueNotify E ctx event n))) = workers (pool n)"
    by blast
  have "acct_inv (snd (QueueNotify E ctx event n))"
    using assms a b c d by (rule acct_inv_extend) (simp add: e)
  then show ?thesis by (simp only: step.simps)
qed

lemma acct_inv_Start:
  assumes inv: "acct_inv n" and idle: "all_idle (pool n)"
  shows "acct_inv (step E (Start i) n)"
proof (cases "i < numWorkers \<and> (\<exists>j q. queues (pool n) i = j # q)")
  case False
  then have "step E (Start i) n = n"
    by (auto split: wstate.splits list.splits)
  with inv show ?thesis by simp
next
  case True
  then obtain j q where i: "i < numWorkers" and jq: "queues (pool n) i = j # q"
    by blast
  from idle i have w: "workers (pool n) i = Idle"
    by (simp add: all_idle_iff)
  define n' where "n' = step E (Start i) n"
  have tr: "trace n' = trace n @ [AtomicSwap (dropped n)]"
    and dr: "dropped n' = 0"
    and hp: "heap n' = (heap n)(t_event (snd j) := event_sent (t_event (snd j)) n)"
    and wk: "workers (pool n') = (workers (pool n))(i := AtSend j (fst (job_begin E (snd j)
               (n\<lparr>pool := pool_take i (pool n)\<rparr>))))"
    using i w jq by (simp_all add: n'_def split_beta pool_set_def pool_take_def event_sent_def)
  from inv idle i have ex: "reads_exact (rev (trace n))"
    and d: "dropped n = of_nat (drops_since (rev (trace n)))"
    by (auto elim!: acct_inv_cases simp add: all_idle_iff)
  have r: "reads_exact (rev (trace n'))"
    using ex d by (simp add: tr)
  have c: "current (workers (pool n') i) = [j]"
    by (simp add: wk)
  have o: "\<forall>k<numWorkers. k \<noteq> i \<longrightarrow> workers (pool n') k = Idle"
    using idle by (simp add: wk all_idle_iff)
  have t: "trace n' = trace n @ AtomicSwap (NumDropped (heap n' (t_event (snd j)))) # []"
    by (simp add: tr hp event_sent_def)
  have "acct_inv n'"
    using r i c o t by (rule acct_inv_busyI) (simp_all add: incs_only_def inc_count_def dr)
  then show ?thesis by (simp only: n'_def)
qed

lemma acct_inv_Deliver:
  assumes inv: "acct_inv n"
  shows "acct_inv (step E (Deliver i) n)"
proof (cases "i < numWorkers \<and> (\<exists>j l. workers (pool n) i = AtSend j l)")
  case False
  then have "step E (Deliver i) n = n"
    by (auto split: wstate.splits)
  with inv show ?thesis by simp
next
  case True
  then obtain j l where i: "i < numWorkers" and w: "workers (pool n) i = AtSend j l"
    by blast
  from job_io_neutral [of E "snd j" l n] obtain Y where
    y: "trace (snd (job_io E (snd j) l n)) = trace n @ Y" "list_all neutral Y"
    by blast
  define n' where "n' = step E (Deliver i) n"
  have tr: "trace n' = trace n @ Y" and dr: "dropped n' = dropped n" and hp: "heap n' = heap n"
    and wk: "workers (pool n') = (workers (pool n))(i := AtAccount j (fst (job_io E (snd j) l n)))"
    using i w y(1) by (simp_all add: n'_def split_beta pool_set_def)
  from neutral_incs_only [OF y(2)] have x: "incs_only Y" "inc_count Y = 0"
    by simp_all
  have "acct_inv n'"
    using inv tr x(1)
  proof (rule acct_inv_extend)
    show "dropped n' = dropped n + of_nat (inc_count Y)" by (simp add: dr x(2))
    show "heap n' = heap n" by (rule hp)
    show "\<forall>k. current (workers (pool n') k) = current (workers (pool n) k)"
      using w by (simp add: wk)
  qed
  then show ?thesis by (simp only: n'_def)
qed

lemma acct_inv_Account:
  assumes inv: "acct_inv n"
  shows "acct_inv (step E (Account i) n)"
proof (cases "i < numWorkers \<and> (\<exists>j l. workers (pool n) i = AtAccount j l)")
  case False
  then have "step E (Account i) n = n"
    by (auto split: wstate.splits)
  with inv show ?thesis by simp
next
  case True
  then obtain j l where i: "i < numWorkers" and w: "workers (pool n) i = AtAccount j l"
    by blast
  define n' where "n' = step E (Account i) n"
  have st: "n' = (job_account E (snd j) l n)\<lparr>pool := pool_done i j (pool n)\<rparr>"
    using i w by (simp add: n'_def Let_def)
  have wk: "workers (pool n') = (workers (pool n))(i := Idle)"
    by (simp add: st pool_done_def)
  from inv show ?thesis
  proof (cases rule: acct_inv_cases)
    case idle
    with i w show ?thesis by (simp add: all_idle_iff)
  next
    case (busy i' j' A M)
    have ii: "i' = i"
    proof (rule ccontr)
      assume "i' \<noteq> i"
      with busy(4) i have "workers (pool n) i = Idle" by simp
      with w show False by simp
    qed
    with busy(3) w have jj: "j' = j" by simp
    note t = busy(5) [unfolded jj]
    from reads_exact_at [OF busy(1) t]
    have v: "NumDropped (heap n (t_event (snd j))) = of_nat (drops_since (rev A))" .
    have a: "all_idle (pool n')"
      using busy(4) ii by (simp add: all_idle_iff wk)
    from job_account_effect [where l = l and E = E and t = "snd j" and n = n] obtain H where
      h: "list_all neutral H" and
      e: "case l_err l of
            None \<Rightarrow>
              trace (job_account E (snd j) l n) = trace n @ Infow ''sent webhook'' (l_fields l) # H
              \<and> dropped (job_account E (snd j) l n) = dropped n
          | Some err \<Rightarrow>
              trace (job_account E (snd j) l n) =
                trace n @ Warnw ''failed to send webhook'' err (l_fields l)
                  # AtomicAdd (NumDropped (heap n (t_event (snd j))) + 1) # H
              \<and> dropped (job_account E (snd j) l n)
                  = dropped n + (NumDropped (heap n (t_event (snd j))) + 1)"
      by blast
    from neutral_incs_only [OF h] have x: "incs_only H" "inc_count H = 0"
      by simp_all
    have "acct_inv n'"
    proof (cases "l_err l")
      case None
      with e have tr: "trace n' = trace n @ Infow ''sent webhook'' (l_fields l) # H"
        and dr: "dropped n' = dropped n"
        by (simp_all add: st)
      have r: "reads_exact (rev (trace n'))"
        using busy(1) x(1) by (simp add: tr reads_exact_skip)
      have "drops_since (rev (trace n')) = inc_count M"
        using x busy(6) by (simp add: tr t drops_since_skip drops_within_skip)
      with busy(7) have "dropped n' = of_nat (drops_since (rev (trace n')))"
        by (simp add: dr)
      with r a show ?thesis by (rule acct_inv_idleI)
    next
      case (Some err)
      with e have tr: "trace n' = trace n @ Warnw ''failed to send webhook'' err (l_fields l)
                  # AtomicAdd (NumDropped (heap n (t_event (snd j))) + 1) # H"
        and dr: "dropped n' = dropped n + (NumDropped (heap n (t_event (snd j))) + 1)"
        by (simp_all add: st)
      have r: "reads_exact (rev (trace n'))"
        using busy(1) x(1) by (simp add: tr reads_exact_skip)
      have "drops_since (rev (trace n')) = Suc (inc_count M + drops_since (rev A))"
        using x busy(6) by (simp add: tr t drops_since_skip)
      with busy(7) v have "dropped n' = of_nat (drops_since (rev (trace n')))"
        by (simp add: dr)
      with r a show ?thesis by (rule acct_inv_idleI)
    qed
    then show ?thesis by (simp only: n'_def)
  qed
qed

lemma acct_inv_step:
  assumes "acct_inv n" and "case a of Start i \<Rightarrow> all_idle (pool n) | _ \<Rightarrow> True"
  shows "acct_inv (step E a n)"
proof (cases a)
  case (Notify ctx event)
  with assms(1) show ?thesis by (simp only: acct_inv_Notify)
next
  case (Start i)
  with assms show ?thesis by (simp add: acct_inv_Start del: step.simps)
next
  case (Deliver i)
  with assms(1) show ?thesis by (simp only: acct_inv_Deliver)
next
  case (Account i)
  with assms(1) show ?thesis by (simp only: acct_inv_Account)
next
  case (StopCall force)
  have "acct_inv (Stop force n)"
    by (rule acct_inv_same [OF assms(1)]) (simp_all add: Stop_def pool_Kill_def pool_Drain_def)
  with StopCall show ?thesis by (simp only: step.simps)
next
  case (KeysCall k s)
  have "acct_inv (SetKeys k s n)"
    by (rule acct_inv_same [OF assms(1)]) (simp_all add: SetKeys_def)
  with KeysCall show ?thesis by (simp only: step.simps)
next
  case (FilterCall fp)
  have "acct_inv (SetFilter fp n)"
    by (rule acct_inv_same [OF assms(1)]) (simp_all add: SetFilter_def)
  with FilterCall show ?thesis by (simp only: step.simps)
next
  case (HookCall h)
  have "acct_inv (RegisterProcessedHook h n)"
    by (rule acct_inv_same [OF assms(1)]) (simp_all add: RegisterProcessedHook_def)
  with HookCall show ?thesis by (simp only: step.simps)
qed

lemma acct_inv_run:
  assumes "acct_inv n" and "single_sender E acts n"
  shows "acct_inv (run E acts n)"
  using assms
proof (induction acts arbitrary: n)
  case Nil
  then show ?case by simp
next
  case (Cons a acts)
  from Cons.prems(2) have ok: "case a of Start i \<Rightarrow> all_idle (pool n) | _ \<Rightarrow> True"
    and rest: "single_sender E acts (step E a n)"
    by simp_all
  from acct_inv_step [OF Cons.prems(1) ok] have "acct_inv (step E a n)" .
  from Cons.IH [OF this rest] show ?case by simp
qed

subsection \<open>Drop accounting\<close>

lemma sint_small:
  assumes "c < 2 ^ 31"
  shows "sint (of_nat c :: int32) = int c"
proof -
  have "int c < int (2 ^ 31)"
    using assms by (simp only: of_nat_less_iff)
  then have u: "int c < 2 ^ 31"
    by (simp only: of_nat_power of_nat_numeral)
  have "- (2 ^ 31) \<le> (0 :: int)" by simp
  then have l: "- (2 ^ 31) \<le> int c"
    by (rule order_trans) (rule of_nat_0_le_iff)
  from l u have e: "signed_take_bit 31 (int c) = int c"
    by (rule signed_take_bit_int_eq_self)
  have n: "LENGTH(32) - Suc 0 = 31" by simp
  have "sint (of_nat c :: int32) = signed_take_bit (LENGTH(32) - Suc 0) (int c)"
    by (simp only: signed_of_nat of_int_eq_id id_apply)
  then show ?thesis by (simp only: n e)
qed

lemma acct_inv_start:
  assumes "all_idle (pool n)" and "dropped n = 0" and "trace n = []"
  shows "acct_inv n"
  using assms by (intro acct_inv_idleI) simp_all

lemma acct_inv_reads:
  assumes "acct_inv n" and "trace n = A @ AtomicSwap v # B"
  shows "v = of_nat (drops_since (rev A))"
  using assms(1)
  by (cases rule: acct_inv_cases) (rule reads_exact_at [OF _ assms(2)], assumption)+

lemma acct_inv_rest:
  assumes "acct_inv n" and "all_idle (pool n)"
  shows "dropped n = of_nat (drops_since (rev (trace n)))"
  using assms
  by (cases rule: acct_inv_cases) (simp_all add: all_idle_iff)

text \<open>Claim C1. Take a run in which sends are single-threaded, started with every worker idle,
  the counter at zero and an empty trace, and in it a read of the counter (\<open>AtomicSwap v\<close>)
  whose send succeeds (the next "sent webhook" line, with no other read in between). The value
  \<open>v\<close> read, which the same step writes into \<open>NumDropped\<close> of the event while it sets the
  counter to zero, is the number of drops recorded (increments for rejected enqueues, additions
  for failed sends) since the read of the previous successful send, as an \<^verbatim>\<open>int32\<close>; below
  \<open>2 ^ 31\<close> drops the signed value is that number. Whenever all workers are idle the counter
  holds the drops recorded since the read of the last successful send, so none is lost and
  none is counted twice.\<close>

theorem drop_accounting:
  assumes "all_idle (pool n)" and "dropped n = 0" and "trace n = []"
    and "single_sender E acts n"
    and "trace (run E acts n) = A @ AtomicSwap v # M @ Infow ''sent webhook'' f # B"
    and "list_all (\<lambda>x. \<not> is_swap x) M"
  shows "v = of_nat (drops_since (rev A))
    \<and> (drops_since (rev A) < 2 ^ 31 \<longrightarrow> sint v = int (drops_since (rev A)))
    \<and> (all_idle (pool (run E acts n)) \<longrightarrow>
         dropped (run E acts n) = of_nat (drops_since (rev (trace (run E acts n)))))
    \<and> dropped (send_setDropped event m) = 0
    \<and> NumDropped (heap (send_setDropped event m) event) = dropped m
    \<and> trace (send_setDropped event m) = trace m @ [AtomicSwap (dropped m)]"
proof -
  have inv: "acct_inv (run E acts n)"
    using acct_inv_start [OF assms(1-3)] assms(4) by (rule acct_inv_run)
  from acct_inv_reads [OF inv assms(5)] have v: "v = of_nat (drops_since (rev A))" .
  have s: "sint v = int (drops_since (rev A))" if "drops_since (rev A) < 2 ^ 31"
    using sint_small [OF that] v by simp
  have r: "dropped (run E acts n) = of_nat (drops_since (rev (trace (run E acts n))))"
    if "all_idle (pool (run E acts n))"
    using inv that by (rule acct_inv_rest)
  from v s r show ?thesis
    by (simp add: event_sent_def)
qed

lemma ex_single:
  "all_idle (pool ex_notifier) \<and> dropped ex_notifier = 0 \<and> trace ex_notifier = []
   \<and> single_sender ex_env [Notify 7 1, Notify 8 2, Start 1, Deliver 1, Account 1] ex_notifier"
  by (simp add: run_eval all_idle_def list_all_iff)

lemma ex_trace:
  "trace (run ex_env [Notify 7 1, Notify 8 2, Start 1, Deliver 1, Account 1] ex_notifier) =
     [AtomicInc,
      Infow ''dropped webhook''
        [IString ''event'', IString ''room_finished'', IString ''url'', IString ''http://hook'']]
     @ AtomicSwap 1
     # [HttpDo
         \<lparr>req_method = ''POST'', req_url = ''http://hook'',
          req_body = [114, 111, 111, 109, 95, 115, 116, 97, 114, 116, 101, 100, 1],
          req_header = [''Authorization'' \<mapsto> ''key.'' @ [char_of (13 :: nat)],
                        ''content-type'' \<mapsto> ''application/webhook+json'']\<rparr>
         (Inr (Response 200 [])),
        BodyClose (Response 200 [])]
     @ Infow ''sent webhook''
         [IString ''event'', IString ''room_started'', IString ''url'', IString ''http://hook'',
          IString ''queueDuration'', IDuration 2000, IString ''sendDuration'', IDuration 2000]
     # []"
  by (simp add: run_eval)

theorem drop_accounting_witness:
  "all_idle (pool ex_notifier) \<and> dropped ex_notifier = 0 \<and> trace ex_notifier = []
   \<and> single_sender ex_env [Notify 7 1, Notify 8 2, Start 1, Deliver 1, Account 1] ex_notifier
   \<and> (\<exists>A M f B.
         trace (run ex_env [Notify 7 1, Notify 8 2, Start 1, Deliver 1, Account 1] ex_notifier)
           = A @ AtomicSwap 1 # M @ Infow ''sent webhook'' f # B
         \<and> list_all (\<lambda>x. \<not> is_swap x) M
         \<and> drops_since (rev A) = 1
         \<and> (1 :: int32) = of_nat (drops_since (rev A)))"
proof -
  let ?A = "[AtomicInc,
      Infow ''dropped webhook''
        [IString ''event'', IString ''room_finished'', IString ''url'', IString ''http://hook'']]"
  let ?M = "[HttpDo
         \<lparr>req_method = ''POST'', req_url = ''http://hook'',
          req_body = [114, 111, 111, 109, 95, 115, 116, 97, 114, 116, 101, 100, 1],
          req_header = [''Authorization'' \<mapsto> ''key.'' @ [char_of (13 :: nat)],
                        ''content-type'' \<mapsto> ''application/webhook+json'']\<rparr>
         (Inr (Response 200 [])),
        BodyClose (Response 200 [])]"
  have m: "list_all (\<lambda>x. \<not> is_swap x) ?M" by simp
  have d: "drops_since (rev ?A) = 1" by simp
  from ex_single have h: "all_idle (pool ex_notifier)" "dropped ex_notifier = 0"
    "trace ex_notifier = []"
    "single_sender ex_env [Notify 7 1, Notify 8 2, Start 1, Deliver 1, Account 1] ex_notifier"
    by blast+
  from drop_accounting [OF h ex_trace m]
  have "(1 :: int32) = of_nat (drops_since (rev ?A))" by blast
  with ex_single ex_trace m d show ?thesis by blast
qed

end
